theory Spec2Isabelle
  imports Main
begin

section \<open>Values of the host language\<close>

text \<open>
  A JavaScript \<^verbatim>\<open>number\<close> is either integer valued or not. \<open>NonInteger\<close> stands for
  every number on which \<^verbatim>\<open>Number.isInteger\<close> is false: fractions, \<^verbatim>\<open>NaN\<close> and the two
  infinities. An optional field \<^verbatim>\<open>f?: T\<close> is a \<open>T option\<close>, \<open>None\<close> being
  \<^verbatim>\<open>undefined\<close>.
\<close>

datatype number = Integer int | NonInteger

datatype jsvalue = JUndefined | JNull | JBool bool | JNumber number | JString string

text \<open>\<^verbatim>\<open>Record<string, unknown>\<close>: an object read key by key.\<close>

type_synonym jsobject = "string \<rightharpoonup> jsvalue"

text \<open>\<^verbatim>\<open>Number.isInteger(v)\<close>, which is false on \<^verbatim>\<open>undefined\<close>.\<close>

fun isInteger :: "number option \<Rightarrow> bool" where
  "isInteger (Some (Integer n)) = True"
| "isInteger (Some NonInteger) = False"
| "isInteger None = False"

text \<open>\<^verbatim>\<open>String.prototype.includes\<close>: \<open>sub\<close> occurs in \<open>s\<close>.\<close>

fun startsWith :: "string \<Rightarrow> string \<Rightarrow> bool" where
  "startsWith s [] = True"
| "startsWith [] (c # cs) = False"
| "startsWith (x # xs) (c # cs) = (x = c \<and> startsWith xs cs)"

fun includes_str :: "string \<Rightarrow> string \<Rightarrow> bool" where
  "includes_str [] sub = (sub = [])"
| "includes_str (x # xs) sub = (startsWith (x # xs) sub \<or> includes_str xs sub)"

text \<open>\<^verbatim>\<open>{...a, ...b}\<close> on optional objects: spreading \<^verbatim>\<open>undefined\<close> adds no key, and a
  key of \<open>b\<close> wins over the same key of \<open>a\<close>.\<close>

definition spread :: "jsobject option \<Rightarrow> jsobject" where
  "spread m = (case m of None \<Rightarrow> Map.empty | Some obj \<Rightarrow> obj)"

definition spread2 :: "jsobject option \<Rightarrow> jsobject option \<Rightarrow> jsobject" where
  "spread2 a b = spread a ++ spread b"


section \<open>The remote sink: \<^verbatim>\<open>SupabaseService\<close>\<close>

text \<open>
  \<^verbatim>\<open>Omit<UserInteraction, 'user_email' | 'qwen_account_email'>\<close> as the tracker builds it,
  and \<^verbatim>\<open>UserInteraction\<close> as its extension by the fields the sink adds. The field
  \<^verbatim>\<open>id\<close> is never written by this code and is left out. The object's \<^verbatim>\<open>metadata\<close> is
  named \<open>metadata_col\<close> here, the name \<open>metadata\<close> being the tracker's.
\<close>

record interaction =
  prompt_text :: string
  prompt_id :: string
  session_id :: string
  model_name :: "string option"
  auth_type :: "string option"
  input_token_count :: "number option"
  output_token_count :: "number option"
  total_token_count :: "number option"
  cached_token_count :: "number option"
  thoughts_token_count :: "number option"
  tool_token_count :: "number option"
  response_duration_ms :: "number option"
  metadata_col :: "jsobject option"

record user_interaction = interaction +
  user_email :: string
  qwen_account_email :: "string option"
  interaction_timestamp :: "string option"

record SupabaseConfig =
  url :: string
  anonKey :: string
  userEmail :: string
  enabled :: bool

text \<open>
  What \<^verbatim>\<open>await this.client.from('user_interactions').insert([row])\<close> can do: resolve to
  \<^verbatim>\<open>{ error }\<close>, with \<^verbatim>\<open>error\<close> null or an object with a code and a message, or throw,
  an \<^verbatim>\<open>Error\<close> with a message or some other value.
\<close>

record pg_error =
  code :: "string option"
  message :: string

datatype thrown = ErrorObject string | OtherValue

datatype insert_outcome = Returned "pg_error option" | Threw thrown

text \<open>
  What \<^verbatim>\<open>await getQwenUserEmail(config)\<close> does for a given \<^verbatim>\<open>Config\<close>: throw, or resolve
  to a string or null. A \<^verbatim>\<open>Config\<close> is used by the sink for nothing else.
\<close>

datatype Config = EmailThrows | EmailResolves "string option"

text \<open>
  The world outside the process, as the sink observes it: the outcome of the \<open>n\<close>-th
  call of \<^verbatim>\<open>insert\<close> (counted from 0) for the row it is given, and the value of
  \<^verbatim>\<open>new Date().toISOString()\<close> when that row is built.
\<close>

record world =
  insertOutcome :: "nat \<Rightarrow> user_interaction \<Rightarrow> insert_outcome"
  isoTime :: "nat \<Rightarrow> string"

text \<open>
  The fields of \<^verbatim>\<open>SupabaseService\<close>. \<open>client\<close> says whether \<^verbatim>\<open>this.client\<close> is non-null.
  Two fields are a log of the effects, for the theorems to read: the rows handed to
  \<^verbatim>\<open>insert\<close>, one per attempt, and the delays handed to \<^verbatim>\<open>setTimeout\<close>, both oldest
  first.
\<close>

record SupabaseService =
  client :: bool
  config :: "SupabaseConfig option"
  isInitialized :: bool
  retryCount :: nat
  inserted :: "user_interaction list"
  delays :: "nat list"

definition maxRetries :: nat where
  "maxRetries = 3"

definition retryDelay :: nat where
  "retryDelay = 1000"

definition isEnabled :: "SupabaseService \<Rightarrow> bool" where
  "isEnabled sb = (isInitialized sb \<and> (case config sb of None \<Rightarrow> False | Some c \<Rightarrow> enabled c))"

text \<open>The object literal \<^verbatim>\<open>interactionData\<close> of \<^verbatim>\<open>logUserInteraction\<close>.\<close>

definition interactionData ::
  "interaction \<Rightarrow> string \<Rightarrow> string option \<Rightarrow> string \<Rightarrow> user_interaction" where
  "interactionData i email qwenAccountEmail now =
     \<lparr> prompt_text = prompt_text i,
       prompt_id = prompt_id i,
       session_id = session_id i,
       model_name = model_name i,
       auth_type = auth_type i,
       input_token_count =
         (if isInteger (input_token_count i) then input_token_count i else Some (Integer 0)),
       output_token_count =
         (if isInteger (output_token_count i) then output_token_count i else Some (Integer 0)),
       total_token_count =
         (if isInteger (total_token_count i) then total_token_count i else Some (Integer 0)),
       cached_token_count =
         (if isInteger (cached_token_count i) then cached_token_count i else Some (Integer 0)),
       thoughts_token_count =
         (if isInteger (thoughts_token_count i) then thoughts_token_count i
          else Some (Integer 0)),
       tool_token_count =
         (if isInteger (tool_token_count i) then tool_token_count i else Some (Integer 0)),
       response_duration_ms =
         (if isInteger (response_duration_ms i) then response_duration_ms i else None),
       metadata_col = metadata_col i,
       user_email = email,
       qwen_account_email =
         (case qwenAccountEmail of None \<Rightarrow> None
          | Some e \<Rightarrow> if e = [] then None else Some e),
       interaction_timestamp = Some now \<rparr>"

text \<open>The thrown values on which the handler of \<^verbatim>\<open>logUserInteraction\<close> retries.\<close>

fun retryable :: "thrown \<Rightarrow> bool" where
  "retryable (ErrorObject msg) =
     (includes_str msg ''network'' \<or> includes_str msg ''timeout'' \<or>
      includes_str msg ''ECONNREFUSED'' \<or> includes_str msg ''ENOTFOUND'')"
| "retryable OtherValue = False"

text \<open>
  \<^verbatim>\<open>logUserInteraction\<close> and \<^verbatim>\<open>retryLogInteraction\<close>, which call each other. The result
  is what the promise settles to: \<open>Inr b\<close> when it resolves to \<open>b\<close>, \<open>Inl e\<close> when it
  rejects with \<open>e\<close>. Every statement of \<^verbatim>\<open>logUserInteraction\<close> after the first guard is
  inside \<^verbatim>\<open>try\<close> and the handler returns, so no equation below yields \<open>Inl\<close>. The awaits
  of one call are taken to run with no other call of the sink in between.
\<close>

function logUserInteraction ::
    "world \<Rightarrow> interaction \<Rightarrow> Config option \<Rightarrow> SupabaseService \<Rightarrow> (thrown + bool) \<times> SupabaseService"
  and retryLogInteraction ::
    "world \<Rightarrow> interaction \<Rightarrow> SupabaseService \<Rightarrow> (thrown + bool) \<times> SupabaseService"
where
  "logUserInteraction w i cfg sb =
     (if \<not> isEnabled sb \<or> \<not> client sb \<or> config sb = None then (Inr False, sb)
      else if prompt_text i = [] \<or> prompt_id i = [] \<or> session_id i = [] then (Inr False, sb)
      else
        let qwenAccountEmail =
              (case cfg of None \<Rightarrow> None
               | Some EmailThrows \<Rightarrow> None
               | Some (EmailResolves e) \<Rightarrow> e);
            row = interactionData i (userEmail (the (config sb))) qwenAccountEmail
                    (isoTime w (length (inserted sb)));
            sb1 = sb\<lparr>inserted := inserted sb @ [row]\<rparr>
        in case insertOutcome w (length (inserted sb)) row of
             Returned (Some err) \<Rightarrow> (Inr False, sb1)
           | Returned None \<Rightarrow> (Inr True, sb1\<lparr>retryCount := 0\<rparr>)
           | Threw e \<Rightarrow> if retryable e then retryLogInteraction w i sb1 else (Inr False, sb1))"
| "retryLogInteraction w i sb =
     (if retryCount sb \<ge> maxRetries then (Inr False, sb\<lparr>retryCount := 0\<rparr>)
      else
        let sb1 = sb\<lparr>retryCount := retryCount sb + 1\<rparr>;
            delay = retryDelay * 2 ^ (retryCount sb1 - 1);
            sb2 = sb1\<lparr>delays := delays sb1 @ [delay]\<rparr>
        in logUserInteraction w i None sb2)"
  by pat_completeness auto
termination
  by (relation "measure (\<lambda>x. case x of
          Inl (w, i, cfg, sb) \<Rightarrow> 2 * (maxRetries - retryCount sb) + 1
        | Inr (w, i, sb) \<Rightarrow> 2 * (maxRetries - retryCount sb))")
     (auto simp: maxRetries_def)

declare logUserInteraction.simps [simp del] retryLogInteraction.simps [simp del]


section \<open>The privacy settings: \<^verbatim>\<open>PrivacyService\<close>\<close>

record PrivacySettings =
  supabaseTrackingEnabled :: bool
  dataRetentionDays :: int
  trackPrompts :: bool
  trackTokens :: bool
  trackMetadata :: bool
  consentGiven :: bool
  consentDate :: "string option"
  lastPromptDate :: "string option"

text \<open>
  \<open>settings\<close> is the field of the class; \<open>stored\<close> is the content of the settings file
  that \<^verbatim>\<open>saveSettings\<close> writes, \<open>None\<close> while there is no file. A write that fails is
  caught and logged by the source; the model takes writes to succeed.
\<close>

record PrivacyService =
  settings :: PrivacySettings
  stored :: "PrivacySettings option"

definition saveSettings :: "PrivacyService \<Rightarrow> PrivacyService" where
  "saveSettings ps = ps\<lparr>stored := Some (settings ps)\<rparr>"

definition isTrackingEnabled :: "PrivacyService \<Rightarrow> bool" where
  "isTrackingEnabled ps = (supabaseTrackingEnabled (settings ps) \<and> consentGiven (settings ps))"

definition shouldTrackPrompts :: "PrivacyService \<Rightarrow> bool" where
  "shouldTrackPrompts ps = (isTrackingEnabled ps \<and> trackPrompts (settings ps))"

definition shouldTrackTokens :: "PrivacyService \<Rightarrow> bool" where
  "shouldTrackTokens ps = (isTrackingEnabled ps \<and> trackTokens (settings ps))"

definition shouldTrackMetadata :: "PrivacyService \<Rightarrow> bool" where
  "shouldTrackMetadata ps = (isTrackingEnabled ps \<and> trackMetadata (settings ps))"

text \<open>\<open>now\<close> is the value of \<^verbatim>\<open>new Date().toISOString()\<close> at the call.\<close>

definition updateLastPromptDate :: "string \<Rightarrow> PrivacyService \<Rightarrow> PrivacyService" where
  "updateLastPromptDate now ps =
     saveSettings (ps\<lparr>settings := (settings ps)\<lparr>lastPromptDate := Some now\<rparr>\<rparr>)"


section \<open>The queue and its batch processor: \<^verbatim>\<open>InteractionTracker\<close>\<close>

text \<open>The \<^verbatim>\<open>config\<close> of a \<^verbatim>\<open>TrackingData\<close> is named \<open>data_config\<close>, the name
  \<open>config\<close> being the sink's.\<close>

record TrackingData =
  promptText :: string
  promptId :: string
  sessionId :: string
  modelName :: "string option"
  authType :: "string option"
  inputTokenCount :: "number option"
  outputTokenCount :: "number option"
  totalTokenCount :: "number option"
  cachedTokenCount :: "number option"
  thoughtsTokenCount :: "number option"
  toolTokenCount :: "number option"
  responseDurationMs :: "number option"
  metadata :: "jsobject option"
  data_config :: "Config option"

text \<open>
  The \<^verbatim>\<open>responseData\<close> argument of \<^verbatim>\<open>updateInteractionWithResponse\<close>. The spread
  \<^verbatim>\<open>...responseData\<close> copies every key the object has, also one whose value is
  \<^verbatim>\<open>undefined\<close>, so a scalar field is \<open>None\<close> when the key is missing, \<open>Some None\<close> when
  it is there with the value \<^verbatim>\<open>undefined\<close> and \<open>Some (Some n)\<close> when it holds \<open>n\<close>.
  The fields carry the prefix \<open>resp_\<close>, their names being the ones of \<open>TrackingData\<close>.
\<close>

record responseData =
  resp_outputTokenCount :: "number option option"
  resp_totalTokenCount :: "number option option"
  resp_cachedTokenCount :: "number option option"
  resp_thoughtsTokenCount :: "number option option"
  resp_toolTokenCount :: "number option option"
  resp_responseDurationMs :: "number option option"
  resp_metadata :: "jsobject option"

text \<open>
  The fields of the class, and \<open>batch\<close>: the local constant of the call of
  \<^verbatim>\<open>processPendingInteractions\<close> that is in flight, which its callbacks hold on to while
  they wait for the sink. It is empty when no call is in flight. \<open>dispatched\<close> is a log
  for the theorems to read: the records whose callback has called the sink, oldest
  first.
\<close>

record InteractionTracker =
  supabaseService :: SupabaseService
  privacyService :: PrivacyService
  pendingInteractions :: "TrackingData list"
  isProcessing :: bool
  batch :: "TrackingData list"
  dispatched :: "TrackingData list"

definition batchSize :: nat where
  "batchSize = 10"

text \<open>The pending count that \<^verbatim>\<open>getQueueStatus\<close> reports.\<close>

definition pendingCount :: "InteractionTracker \<Rightarrow> nat" where
  "pendingCount s = length (pendingInteractions s)"

text \<open>The object literal \<^verbatim>\<open>filteredData\<close> of \<^verbatim>\<open>trackInteraction\<close>.\<close>

definition filteredData :: "PrivacyService \<Rightarrow> TrackingData \<Rightarrow> TrackingData" where
  "filteredData ps data =
     data\<lparr> promptText := (if shouldTrackPrompts ps then promptText data else ''[REDACTED]''),
           inputTokenCount := (if shouldTrackTokens ps then inputTokenCount data else None),
           outputTokenCount := (if shouldTrackTokens ps then outputTokenCount data else None),
           totalTokenCount := (if shouldTrackTokens ps then totalTokenCount data else None),
           cachedTokenCount := (if shouldTrackTokens ps then cachedTokenCount data else None),
           thoughtsTokenCount :=
             (if shouldTrackTokens ps then thoughtsTokenCount data else None),
           toolTokenCount := (if shouldTrackTokens ps then toolTokenCount data else None),
           metadata := (if shouldTrackMetadata ps then metadata data else None) \<rparr>"

text \<open>
  \<^verbatim>\<open>processPendingInteractions\<close> up to its \<^verbatim>\<open>await\<close>: the guard, the flag, the
  \<^verbatim>\<open>splice\<close>. This part runs at once in the caller's turn.
\<close>

definition processPendingInteractions_start :: "InteractionTracker \<Rightarrow> InteractionTracker" where
  "processPendingInteractions_start s =
     (if isProcessing s \<or> pendingInteractions s = [] then s
      else s\<lparr> isProcessing := True,
              batch := take batchSize (pendingInteractions s),
              pendingInteractions := drop batchSize (pendingInteractions s) \<rparr>)"

text \<open>The object literal \<^verbatim>\<open>interaction\<close> built for one record of the batch.\<close>

definition toInteraction :: "TrackingData \<Rightarrow> interaction" where
  "toInteraction data =
     \<lparr> prompt_text = promptText data,
       prompt_id = promptId data,
       session_id = sessionId data,
       model_name = modelName data,
       auth_type = authType data,
       input_token_count = inputTokenCount data,
       output_token_count = outputTokenCount data,
       total_token_count = totalTokenCount data,
       cached_token_count = cachedTokenCount data,
       thoughts_token_count = thoughtsTokenCount data,
       tool_token_count = toolTokenCount data,
       response_duration_ms = responseDurationMs data,
       metadata_col = metadata data \<rparr>"

text \<open>
  The callback of \<^verbatim>\<open>batch.map\<close> for one record: the call of the sink, and the handler
  that puts the record back at the head when the call rejects.
\<close>

definition dispatch :: "world \<Rightarrow> TrackingData \<Rightarrow> InteractionTracker \<Rightarrow> InteractionTracker" where
  "dispatch w data s =
     (case logUserInteraction w (toInteraction data) (data_config data) (supabaseService s) of
        (Inr ok, sb) \<Rightarrow> s\<lparr>supabaseService := sb, dispatched := dispatched s @ [data]\<rparr>
      | (Inl err, sb) \<Rightarrow>
          s\<lparr>supabaseService := sb, dispatched := dispatched s @ [data],
            pendingInteractions := data # pendingInteractions s\<rparr>)"

text \<open>The callbacks of a batch, taken to run one after the other in the order of the
  batch.\<close>

fun dispatchAll :: "world \<Rightarrow> TrackingData list \<Rightarrow> InteractionTracker \<Rightarrow> InteractionTracker" where
  "dispatchAll w [] s = s"
| "dispatchAll w (data # rest) s = dispatchAll w rest (dispatch w data s)"

text \<open>
  \<^verbatim>\<open>processPendingInteractions\<close> from its \<^verbatim>\<open>await\<close> on: every callback of the batch has
  settled, and \<^verbatim>\<open>finally\<close> clears the flag.
\<close>

definition processPendingInteractions_settle ::
    "world \<Rightarrow> InteractionTracker \<Rightarrow> InteractionTracker" where
  "processPendingInteractions_settle w s =
     (dispatchAll w (batch s) s)\<lparr>isProcessing := False, batch := []\<rparr>"

text \<open>
  \<^verbatim>\<open>await this.processPendingInteractions()\<close>: the whole call, for a caller that waits
  for it with nothing else happening in between. When the guard returns at once there
  is nothing to wait for.
\<close>

definition processPendingInteractions :: "world \<Rightarrow> InteractionTracker \<Rightarrow> InteractionTracker" where
  "processPendingInteractions w s =
     (if isProcessing s \<or> pendingInteractions s = [] then s
      else processPendingInteractions_settle w (processPendingInteractions_start s))"

text \<open>\<^verbatim>\<open>trackInteraction\<close>. The drain it triggers is not awaited, so only its first part
  runs inside the call.\<close>

definition trackInteraction ::
    "string \<Rightarrow> TrackingData \<Rightarrow> InteractionTracker \<Rightarrow> InteractionTracker" where
  "trackInteraction now data s =
     (if \<not> isTrackingEnabled (privacyService s) then s
      else
        let s1 = s\<lparr>pendingInteractions :=
                     pendingInteractions s @ [filteredData (privacyService s) data]\<rparr>;
            s2 = s1\<lparr>privacyService := updateLastPromptDate now (privacyService s1)\<rparr>
        in if length (pendingInteractions s2) \<ge> batchSize
           then processPendingInteractions_start s2 else s2)"

text \<open>\<^verbatim>\<open>Array.prototype.findIndex\<close>, \<open>None\<close> for \<open>-1\<close>.\<close>

fun findIndex :: "('a \<Rightarrow> bool) \<Rightarrow> 'a list \<Rightarrow> nat option" where
  "findIndex P [] = None"
| "findIndex P (x # xs) =
     (if P x then Some 0 else (case findIndex P xs of None \<Rightarrow> None | Some n \<Rightarrow> Some (Suc n)))"

text \<open>One scalar key of \<^verbatim>\<open>{...existingInteraction, ...responseData}\<close>.\<close>

fun overwrite :: "'a option \<Rightarrow> 'a option option \<Rightarrow> 'a option" where
  "overwrite old None = old"
| "overwrite old (Some v) = v"

text \<open>The object literal that \<^verbatim>\<open>updateInteractionWithResponse\<close> stores.\<close>

definition mergeResponse :: "TrackingData \<Rightarrow> responseData \<Rightarrow> TrackingData" where
  "mergeResponse existingInteraction r =
     existingInteraction
       \<lparr> outputTokenCount :=
           overwrite (outputTokenCount existingInteraction) (resp_outputTokenCount r),
         totalTokenCount :=
           overwrite (totalTokenCount existingInteraction) (resp_totalTokenCount r),
         cachedTokenCount :=
           overwrite (cachedTokenCount existingInteraction) (resp_cachedTokenCount r),
         thoughtsTokenCount :=
           overwrite (thoughtsTokenCount existingInteraction) (resp_thoughtsTokenCount r),
         toolTokenCount :=
           overwrite (toolTokenCount existingInteraction) (resp_toolTokenCount r),
         responseDurationMs :=
           overwrite (responseDurationMs existingInteraction) (resp_responseDurationMs r),
         metadata := Some (spread2 (metadata existingInteraction) (resp_metadata r)) \<rparr>"

definition updateInteractionWithResponse ::
    "string \<Rightarrow> responseData \<Rightarrow> InteractionTracker \<Rightarrow> InteractionTracker" where
  "updateInteractionWithResponse pid r s =
     (if \<not> isEnabled (supabaseService s) then s
      else case findIndex (\<lambda>interaction. promptId interaction = pid) (pendingInteractions s) of
             Some pendingIndex \<Rightarrow>
               s\<lparr>pendingInteractions :=
                   (pendingInteractions s)
                     [pendingIndex := mergeResponse (pendingInteractions s ! pendingIndex) r]\<rparr>
           | None \<Rightarrow> s)"


section \<open>The sink never rejects, so a drain never puts a record back\<close>

lemma logUserInteraction_resolves:
  "\<exists>b. fst (logUserInteraction w i cfg sb) = Inr b"
  "\<exists>b. fst (retryLogInteraction w i sb2) = Inr b"
proof (induction w i cfg sb and w i sb2 rule: logUserInteraction_retryLogInteraction.induct)
  case (1 w i cfg sb)
  then show ?case
    by (subst logUserInteraction.simps)
       (auto simp: Let_def split: insert_outcome.splits option.splits)
next
  case (2 w i sb)
  then show ?case
    by (subst retryLogInteraction.simps) (auto simp: Let_def)
qed

lemma dispatch_pending: "pendingInteractions (dispatch w d s) = pendingInteractions s"
  using logUserInteraction_resolves(1)[of w "toInteraction d" "data_config d" "supabaseService s"]
  by (auto simp: dispatch_def split: prod.splits sum.splits)

lemma dispatch_frame:
  "isProcessing (dispatch w d s) = isProcessing s"
  "batch (dispatch w d s) = batch s"
  "privacyService (dispatch w d s) = privacyService s"
  "dispatched (dispatch w d s) = dispatched s @ [d]"
  by (auto simp: dispatch_def split: prod.splits sum.splits)

lemma dispatchAll_pending: "pendingInteractions (dispatchAll w ds s) = pendingInteractions s"
  by (induction ds arbitrary: s) (auto simp: dispatch_pending)

lemma dispatchAll_frame:
  "isProcessing (dispatchAll w ds s) = isProcessing s"
  "batch (dispatchAll w ds s) = batch s"
  "privacyService (dispatchAll w ds s) = privacyService s"
  "dispatched (dispatchAll w ds s) = dispatched s @ ds"
  by (induction ds arbitrary: s) (auto simp: dispatch_frame)

lemma processPendingInteractions_pending:
  "\<not> isProcessing s \<Longrightarrow>
   pendingInteractions (processPendingInteractions w s) = drop batchSize (pendingInteractions s)"
  by (auto simp: processPendingInteractions_def processPendingInteractions_settle_def
        processPendingInteractions_start_def dispatchAll_pending)

lemma processPendingInteractions_flag:
  "\<not> isProcessing s \<Longrightarrow> \<not> isProcessing (processPendingInteractions w s)"
  by (auto simp: processPendingInteractions_def processPendingInteractions_settle_def
        processPendingInteractions_start_def)

text \<open>
  \<^verbatim>\<open>flush\<close>, for a caller that waits for it with nothing else happening in between:
  each turn of the loop is one whole drain. The loop ends because the sink never
  rejects: every drain that starts takes its batch off the pending sequence for good.
\<close>

function flush :: "world \<Rightarrow> InteractionTracker \<Rightarrow> InteractionTracker" where
  "flush w s =
     (if pendingInteractions s \<noteq> [] \<and> \<not> isProcessing s
      then flush w (processPendingInteractions w s) else s)"
  by pat_completeness auto
termination
  by (relation "measure (\<lambda>(w, s). length (pendingInteractions s))")
     (auto simp: processPendingInteractions_pending batchSize_def)

declare flush.simps [simp del]

text \<open>
  What the process sees, one event at a time: a call of \<^verbatim>\<open>trackInteraction\<close> (with
  the time of the call), a call of \<^verbatim>\<open>updateInteractionWithResponse\<close>, a tick of the
  timer of \<^verbatim>\<open>startBatchProcessor\<close>, the moment the drain in flight settles, and a call
  of \<^verbatim>\<open>flush\<close> that is waited for. A \<^verbatim>\<open>flush\<close> that other events interleave with is a
  sequence of \<open>Tick\<close> and \<open>Settled\<close> among them.
\<close>

datatype event =
    Track string TrackingData
  | Update string responseData
  | Tick
  | Settled
  | Flush

fun step :: "world \<Rightarrow> InteractionTracker \<Rightarrow> event \<Rightarrow> InteractionTracker" where
  "step w s (Track now data) = trackInteraction now data s"
| "step w s (Update pid r) = updateInteractionWithResponse pid r s"
| "step w s Tick = processPendingInteractions_start s"
| "step w s Settled = (if isProcessing s then processPendingInteractions_settle w s else s)"
| "step w s Flush = flush w s"

definition run :: "world \<Rightarrow> InteractionTracker \<Rightarrow> event list \<Rightarrow> InteractionTracker" where
  "run w s evs = foldl (step w) s evs"

text \<open>The tracker as its constructor leaves it, for a given sink and privacy service.\<close>

definition newTracker :: "SupabaseService \<Rightarrow> PrivacyService \<Rightarrow> InteractionTracker" where
  "newTracker sb ps =
     \<lparr> supabaseService = sb, privacyService = ps, pendingInteractions = [],
       isProcessing = False, batch = [], dispatched = [] \<rparr>"

section \<open>Test data and vocabulary for the statements\<close>

text \<open>The defaults of \<^verbatim>\<open>privacyService.ts\<close>: tracking is off until consent is
  given.\<close>

definition DEFAULT_PRIVACY_SETTINGS :: PrivacySettings where
  "DEFAULT_PRIVACY_SETTINGS =
     \<lparr> supabaseTrackingEnabled = False, dataRetentionDays = 90, trackPrompts = True,
       trackTokens = True, trackMetadata = True, consentGiven = False,
       consentDate = None, lastPromptDate = None \<rparr>"

text \<open>The settings once consent is given, a sink configured as the tests of the
  sink configure it, and the record the tests of the tracker submit, here with a
  response time and the identifier left open.\<close>

definition testSettings :: PrivacySettings where
  "testSettings =
     \<lparr> supabaseTrackingEnabled = True, dataRetentionDays = 90, trackPrompts = True,
       trackTokens = True, trackMetadata = True, consentGiven = True,
       consentDate = Some ''2025-01-01T00:00:00.000Z'', lastPromptDate = None \<rparr>"

definition testPrivacy :: PrivacyService where
  "testPrivacy = \<lparr> settings = testSettings, stored = Some testSettings \<rparr>"

definition testSupabase :: SupabaseService where
  "testSupabase =
     \<lparr> client = True,
       config = Some \<lparr> url = ''https://test.supabase.co'', anonKey = ''test-anon-key'',
                       userEmail = ''test@example.com'', enabled = True \<rparr>,
       isInitialized = True, retryCount = 0, inserted = [], delays = [] \<rparr>"

definition mockTrackingData :: "string \<Rightarrow> TrackingData" where
  "mockTrackingData pid =
     \<lparr> promptText = ''Test prompt'', promptId = pid, sessionId = ''test-session-id'',
       modelName = Some ''test-model'', authType = None,
       inputTokenCount = Some (Integer 10), outputTokenCount = Some (Integer 20),
       totalTokenCount = Some (Integer 30), cachedTokenCount = None,
       thoughtsTokenCount = None, toolTokenCount = None,
       responseDurationMs = Some (Integer 1000),
       metadata = Some [''test'' \<mapsto> JString ''data''], data_config = None \<rparr>"

text \<open>Vocabulary for the statements: the guards of \<^verbatim>\<open>logUserInteraction\<close> let the call
  through to \<^verbatim>\<open>insert\<close>; the row an attempt builds; the six token fields of a row.\<close>

definition passesGuards :: "interaction \<Rightarrow> SupabaseService \<Rightarrow> bool" where
  "passesGuards i sb =
     (isEnabled sb \<and> client sb \<and> config sb \<noteq> None \<and>
      prompt_text i \<noteq> [] \<and> prompt_id i \<noteq> [] \<and> session_id i \<noteq> [])"

definition attemptRow ::
    "world \<Rightarrow> interaction \<Rightarrow> Config option \<Rightarrow> SupabaseService \<Rightarrow> user_interaction" where
  "attemptRow w i cfg sb =
     interactionData i (userEmail (the (config sb)))
       (case cfg of None \<Rightarrow> None | Some EmailThrows \<Rightarrow> None | Some (EmailResolves e) \<Rightarrow> e)
       (isoTime w (length (inserted sb)))"

definition tokenCounts :: "'a interaction_scheme \<Rightarrow> number option list" where
  "tokenCounts i =
     [input_token_count i, output_token_count i, total_token_count i,
      cached_token_count i, thoughts_token_count i, tool_token_count i]"

fun isNonNegativeInteger :: "number option \<Rightarrow> bool" where
  "isNonNegativeInteger (Some (Integer n)) = (0 \<le> n)"
| "isNonNegativeInteger (Some NonInteger) = False"
| "isNonNegativeInteger None = False"

text \<open>Two worlds: one where every \<^verbatim>\<open>insert\<close> succeeds, one where every \<^verbatim>\<open>insert\<close>
  throws a network error.\<close>

definition alwaysOk :: world where
  "alwaysOk = \<lparr> insertOutcome = (\<lambda>n row. Returned None),
                isoTime = (\<lambda>n. ''2025-01-02T00:00:00.000Z'') \<rparr>"

definition networkDown :: world where
  "networkDown = \<lparr> insertOutcome = (\<lambda>n row. Threw (ErrorObject ''network error'')),
                   isoTime = (\<lambda>n. ''2025-01-02T00:00:00.000Z'') \<rparr>"

text \<open>Two records for the sink: one with token counts that are no integers, as in the
  sink's test of its sanitizing, and one with a negative count.\<close>

definition sanitizeInput :: interaction where
  "sanitizeInput =
     (toInteraction (mockTrackingData ''test-prompt-id''))
       \<lparr>input_token_count := Some NonInteger, output_token_count := None\<rparr>"

definition negativeInput :: interaction where
  "negativeInput =
     (toInteraction (mockTrackingData ''test-prompt-id''))
       \<lparr>input_token_count := Some (Integer (- 5))\<rparr>"


text \<open>A sink as the constructor leaves it when the environment is not configured, a
  response that carries an output token count only, twelve identifiers, and the
  tracker after the test record has been submitted under each identifier of a list,
  with no other event in between.\<close>

definition unconfiguredSupabase :: SupabaseService where
  "unconfiguredSupabase =
     \<lparr> client = False, config = None, isInitialized = False, retryCount = 0,
       inserted = [], delays = [] \<rparr>"

definition outputTokens42 :: responseData where
  "outputTokens42 =
     \<lparr> resp_outputTokenCount = Some (Some (Integer 42)), resp_totalTokenCount = None,
       resp_cachedTokenCount = None, resp_thoughtsTokenCount = None,
       resp_toolTokenCount = None, resp_responseDurationMs = None,
       resp_metadata = None \<rparr>"

definition twelve :: "string list" where
  "twelve = [''p1'', ''p2'', ''p3'', ''p4'', ''p5'', ''p6'', ''p7'', ''p8'', ''p9'', ''p10'',
             ''p11'', ''p12'']"

definition tracked :: "InteractionTracker \<Rightarrow> string list \<Rightarrow> InteractionTracker" where
  "tracked s pids =
     run alwaysOk s (map (Track ''2025-01-02T00:00:00.000Z'') (map mockTrackingData pids))"

definition twoPending :: InteractionTracker where
  "twoPending = tracked (newTracker testSupabase testPrivacy) [''p1'', ''p2'']"

definition twelveSubmitted :: InteractionTracker where
  "twelveSubmitted = tracked (newTracker testSupabase testPrivacy) twelve"

definition onePendingSinkOff :: InteractionTracker where
  "onePendingSinkOff = tracked (newTracker unconfiguredSupabase testPrivacy) [''p1'']"


text \<open>Vocabulary for the statements about runs: the identifiers submitted by a list of
  events, in order, and the identifiers of the records a tracker holds or has let go:
  the dispatched ones, then the batch in flight, then the pending ones.\<close>

fun submittedId :: "event \<Rightarrow> string list" where
  "submittedId (Track now data) = [promptId data]"
| "submittedId (Update pid r) = []"
| "submittedId Tick = []"
| "submittedId Settled = []"
| "submittedId Flush = []"

definition submittedIds :: "event list \<Rightarrow> string list" where
  "submittedIds evs = concat (map submittedId evs)"

definition heldIds :: "InteractionTracker \<Rightarrow> string list" where
  "heldIds s = map promptId (dispatched s @ batch s @ pendingInteractions s)"

text \<open>A world where every \<^verbatim>\<open>insert\<close> of a row of \<^verbatim>\<open>p1\<close> throws a network error and
  every other \<^verbatim>\<open>insert\<close> succeeds, and the tracker after eleven submissions.\<close>

definition p1Down :: world where
  "p1Down =
     \<lparr> insertOutcome =
         (\<lambda>n row. if prompt_id row = ''p1'' then Threw (ErrorObject ''network error'')
                   else Returned None),
       isoTime = (\<lambda>n. ''2025-01-02T00:00:00.000Z'') \<rparr>"

definition elevenSubmitted :: InteractionTracker where
  "elevenSubmitted = tracked (newTracker testSupabase testPrivacy) (take 11 twelve)"


section \<open>Tracking: the gate and the filter\<close>

lemma processPendingInteractions_start_concat:
  "batch (processPendingInteractions_start s) @
     pendingInteractions (processPendingInteractions_start s) =
   (if isProcessing s \<or> pendingInteractions s = [] then batch s else []) @
     pendingInteractions s"
  by (simp add: processPendingInteractions_start_def)

lemma trackInteraction_enqueues:
  assumes "isTrackingEnabled (privacyService s)"
  shows "batch (trackInteraction now data s) @ pendingInteractions (trackInteraction now data s) =
         (if \<not> isProcessing s \<and> batchSize \<le> length (pendingInteractions s) + 1 then []
          else batch s) @ pendingInteractions s @ [filteredData (privacyService s) data]"
  using assms
  by (simp add: trackInteraction_def Let_def processPendingInteractions_start_concat)

text \<open>The record a call of \<^verbatim>\<open>trackInteraction\<close> has queued is the last of the records
  the tracker holds: the last pending one, or the last of the batch when the call has
  started a drain that took it.\<close>

lemma trackInteraction_last:
  assumes "isTrackingEnabled (privacyService s)"
  shows "last (batch (trackInteraction now data s) @
               pendingInteractions (trackInteraction now data s))
         = filteredData (privacyService s) data"
  by (simp add: trackInteraction_enqueues[OF assms] del: append_assoc flip: append_assoc)

text \<open>
  Claim C3. While tracking is disabled, \<^verbatim>\<open>trackInteraction\<close> changes nothing at all:
  the tracker, its sink (so nothing is sent) and its privacy service (so the date of
  the last prompt) are what they were, for one submission and for any sequence of
  them, and the pending count stays what it was.
\<close>

theorem trackInteraction_disabled_is_noop:
  assumes "\<not> isTrackingEnabled (privacyService s)"
  shows "trackInteraction now data s = s
       \<and> foldl (\<lambda>t (now', data'). trackInteraction now' data' t) s submitted = s
       \<and> pendingCount (trackInteraction now data s) = pendingCount s
       \<and> inserted (supabaseService (trackInteraction now data s)) = inserted (supabaseService s)
       \<and> lastPromptDate (settings (privacyService (trackInteraction now data s))) =
           lastPromptDate (settings (privacyService s))"
proof -
  have one: "trackInteraction now' data' s = s" for now' data'
    using assms by (simp add: trackInteraction_def)
  have "foldl (\<lambda>t (now', data'). trackInteraction now' data' t) s submitted = s"
    by (induction submitted) (auto simp: one)
  then show ?thesis
    by (simp add: one)
qed

theorem trackInteraction_disabled_is_noop_witness:
  "\<not> isTrackingEnabled \<lparr> settings = DEFAULT_PRIVACY_SETTINGS, stored = None \<rparr>
   \<and> pendingCount
        (trackInteraction ''2025-01-02T00:00:00.000Z'' (mockTrackingData ''test-prompt-id'')
           (newTracker testSupabase \<lparr> settings = DEFAULT_PRIVACY_SETTINGS, stored = None \<rparr>))
       = 0"
  using trackInteraction_disabled_is_noop
          [of "newTracker testSupabase \<lparr> settings = DEFAULT_PRIVACY_SETTINGS, stored = None \<rparr>"
              "''2025-01-02T00:00:00.000Z''" "mockTrackingData ''test-prompt-id''" "[]"]
  by (simp add: isTrackingEnabled_def DEFAULT_PRIVACY_SETTINGS_def newTracker_def
        pendingCount_def)

text \<open>
  Claim C4. While tracking is enabled, the record that \<^verbatim>\<open>trackInteraction\<close> queues
  has the prompt text of the submitted one when \<^verbatim>\<open>trackPrompts\<close> is set and the
  sentinel \<^verbatim>\<open>[REDACTED]\<close>, which is not the empty string, when it is not; its six
  token fields are the submitted ones when \<^verbatim>\<open>trackTokens\<close> is set and all absent when
  it is not; its metadata is the submitted one when \<^verbatim>\<open>trackMetadata\<close> is set and
  absent when it is not; its \<^verbatim>\<open>promptId\<close> and \<^verbatim>\<open>sessionId\<close> are the submitted ones
  whatever the settings.
\<close>

theorem trackInteraction_redacts_per_category:
  assumes "isTrackingEnabled (privacyService s)"
  shows "\<exists>r. last (batch (trackInteraction now data s) @
                  pendingInteractions (trackInteraction now data s)) = r
    \<and> promptText r = (if trackPrompts (settings (privacyService s)) then promptText data
                      else ''[REDACTED]'')
    \<and> ''[REDACTED]'' \<noteq> ''''
    \<and> [inputTokenCount r, outputTokenCount r, totalTokenCount r, cachedTokenCount r,
        thoughtsTokenCount r, toolTokenCount r] =
       (if trackTokens (settings (privacyService s))
        then [inputTokenCount data, outputTokenCount data, totalTokenCount data,
              cachedTokenCount data, thoughtsTokenCount data, toolTokenCount data]
        else [None, None, None, None, None, None])
    \<and> metadata r = (if trackMetadata (settings (privacyService s)) then metadata data else None)
    \<and> promptId r = promptId data \<and> sessionId r = sessionId data"
  using assms
  by (simp add: trackInteraction_last filteredData_def shouldTrackPrompts_def
      shouldTrackTokens_def shouldTrackMetadata_def)

theorem trackInteraction_redacts_per_category_witness:
  "isTrackingEnabled (testPrivacy\<lparr>settings := testSettings\<lparr>trackTokens := False\<rparr>\<rparr>)
   \<and> promptText (last (pendingInteractions
         (trackInteraction ''2025-01-02T00:00:00.000Z'' (mockTrackingData ''test-prompt-id'')
            (newTracker testSupabase
               (testPrivacy\<lparr>settings := testSettings\<lparr>trackTokens := False\<rparr>\<rparr>)))))
       = ''Test prompt''
   \<and> outputTokenCount (last (pendingInteractions
         (trackInteraction ''2025-01-02T00:00:00.000Z'' (mockTrackingData ''test-prompt-id'')
            (newTracker testSupabase
               (testPrivacy\<lparr>settings := testSettings\<lparr>trackTokens := False\<rparr>\<rparr>)))))
       = None"
proof -
  let ?ps = "testPrivacy\<lparr>settings := testSettings\<lparr>trackTokens := False\<rparr>\<rparr>"
  let ?s = "newTracker testSupabase ?ps"
  let ?s' = "trackInteraction ''2025-01-02T00:00:00.000Z'' (mockTrackingData ''test-prompt-id'') ?s"
  have en: "isTrackingEnabled (privacyService ?s)"
    by (simp add: isTrackingEnabled_def newTracker_def testPrivacy_def testSettings_def)
  have b: "batch ?s' = []"
    by (simp add: trackInteraction_def Let_def newTracker_def batchSize_def
          isTrackingEnabled_def testPrivacy_def testSettings_def)
  show ?thesis
    using en b
      trackInteraction_redacts_per_category
        [OF en, of "''2025-01-02T00:00:00.000Z''" "mockTrackingData ''test-prompt-id''"]
    by (simp add: newTracker_def testPrivacy_def testSettings_def mockTrackingData_def)
qed

text \<open>
  Claim C10. While tracking is enabled, the record that \<^verbatim>\<open>trackInteraction\<close> queues
  has the \<^verbatim>\<open>responseDurationMs\<close> of the submitted one whatever the three settings
  are; the filter alters nothing but the prompt text, the six token fields and the
  metadata: with those put back, the queued record is the submitted one.
\<close>

theorem trackInteraction_keeps_responseDurationMs:
  assumes "isTrackingEnabled (privacyService s)"
  shows "\<exists>r. last (batch (trackInteraction now data s) @
                  pendingInteractions (trackInteraction now data s)) = r
    \<and> responseDurationMs r = responseDurationMs data
    \<and> r\<lparr> promptText := promptText data, inputTokenCount := inputTokenCount data,
          outputTokenCount := outputTokenCount data, totalTokenCount := totalTokenCount data,
          cachedTokenCount := cachedTokenCount data,
          thoughtsTokenCount := thoughtsTokenCount data,
          toolTokenCount := toolTokenCount data, metadata := metadata data \<rparr> = data"
  using assms
  by (simp add: trackInteraction_last filteredData_def)

theorem trackInteraction_keeps_responseDurationMs_witness:
  "isTrackingEnabled
     (testPrivacy\<lparr>settings := testSettings\<lparr>trackTokens := False, trackPrompts := False,
                                          trackMetadata := False\<rparr>\<rparr>)
   \<and> responseDurationMs (last (pendingInteractions
         (trackInteraction ''2025-01-02T00:00:00.000Z'' (mockTrackingData ''test-prompt-id'')
            (newTracker testSupabase
               (testPrivacy\<lparr>settings := testSettings\<lparr>trackTokens := False,
                  trackPrompts := False, trackMetadata := False\<rparr>\<rparr>)))))
       = Some (Integer 1000)"
proof -
  let ?ps = "testPrivacy\<lparr>settings := testSettings\<lparr>trackTokens := False,
               trackPrompts := False, trackMetadata := False\<rparr>\<rparr>"
  let ?s = "newTracker testSupabase ?ps"
  let ?s' = "trackInteraction ''2025-01-02T00:00:00.000Z'' (mockTrackingData ''test-prompt-id'') ?s"
  have en: "isTrackingEnabled (privacyService ?s)"
    by (simp add: isTrackingEnabled_def newTracker_def testPrivacy_def testSettings_def)
  have b: "batch ?s' = []"
    by (simp add: trackInteraction_def Let_def newTracker_def batchSize_def
          isTrackingEnabled_def testPrivacy_def testSettings_def)
  show ?thesis
    using en b
      trackInteraction_keeps_responseDurationMs
        [OF en, of "''2025-01-02T00:00:00.000Z''" "mockTrackingData ''test-prompt-id''"]
    by (simp add: newTracker_def testPrivacy_def testSettings_def mockTrackingData_def)
qed

section \<open>The sink: what one call sends, and how often\<close>

lemma logUserInteraction_guarded:
  "\<not> passesGuards i sb \<Longrightarrow> logUserInteraction w i cfg sb = (Inr False, sb)"
  by (subst logUserInteraction.simps) (auto simp: passesGuards_def)

lemma logUserInteraction_attempt:
  assumes "passesGuards i sb"
  shows "logUserInteraction w i cfg sb =
     (case insertOutcome w (length (inserted sb)) (attemptRow w i cfg sb) of
        Returned None \<Rightarrow>
          (Inr True, sb\<lparr>inserted := inserted sb @ [attemptRow w i cfg sb], retryCount := 0\<rparr>)
      | Returned (Some err) \<Rightarrow>
          (Inr False, sb\<lparr>inserted := inserted sb @ [attemptRow w i cfg sb]\<rparr>)
      | Threw e \<Rightarrow>
          if retryable e
          then retryLogInteraction w i (sb\<lparr>inserted := inserted sb @ [attemptRow w i cfg sb]\<rparr>)
          else (Inr False, sb\<lparr>inserted := inserted sb @ [attemptRow w i cfg sb]\<rparr>))"
  unfolding attemptRow_def using assms
  by (subst logUserInteraction.simps) (auto simp: Let_def passesGuards_def)

lemma retryLogInteraction_exhausted:
  "maxRetries \<le> retryCount sb \<Longrightarrow>
   retryLogInteraction w i sb = (Inr False, sb\<lparr>retryCount := 0\<rparr>)"
  by (subst retryLogInteraction.simps) simp

lemma retryLogInteraction_again:
  "retryCount sb < maxRetries \<Longrightarrow>
   retryLogInteraction w i sb =
     logUserInteraction w i None
       (sb\<lparr>retryCount := Suc (retryCount sb),
           delays := delays sb @ [retryDelay * 2 ^ retryCount sb]\<rparr>)"
  by (subst retryLogInteraction.simps) (simp add: Let_def)

lemma passesGuards_frame [simp]:
  "passesGuards i (sb\<lparr>inserted := xs\<rparr>) = passesGuards i sb"
  "passesGuards i (sb\<lparr>retryCount := c\<rparr>) = passesGuards i sb"
  "passesGuards i (sb\<lparr>delays := ds\<rparr>) = passesGuards i sb"
  by (simp_all add: passesGuards_def isEnabled_def)

lemma sink_rows:
  "\<exists>rows. inserted (snd (logUserInteraction w i cfg sb)) = inserted sb @ rows \<and>
     (\<forall>row\<in>set rows. \<exists>q t. row = interactionData i (userEmail (the (config sb))) q t)"
proof (induction "maxRetries - retryCount sb" arbitrary: sb cfg rule: less_induct)
  case less
  show ?case
  proof (cases "passesGuards i sb")
    case False
    then show ?thesis by (simp add: logUserInteraction_guarded)
  next
    case True
    let ?row = "attemptRow w i cfg sb"
    let ?sb1 = "sb\<lparr>inserted := inserted sb @ [?row]\<rparr>"
    have row: "\<exists>q t. ?row = interactionData i (userEmail (the (config sb))) q t"
      unfolding attemptRow_def by blast
    show ?thesis
    proof (cases "insertOutcome w (length (inserted sb)) ?row")
      case (Returned x)
      then show ?thesis
        using row by (cases x) (simp_all add: logUserInteraction_attempt[OF True])
    next
      case (Threw e)
      show ?thesis
      proof (cases "retryable e \<and> retryCount sb < maxRetries")
        case False
        then show ?thesis
          using row Threw
          by (cases "retryable e")
             (simp_all add: logUserInteraction_attempt[OF True] retryLogInteraction_exhausted)
      next
        case again: True
        let ?sb2 = "?sb1\<lparr>retryCount := Suc (retryCount ?sb1),
                         delays := delays ?sb1 @ [retryDelay * 2 ^ retryCount ?sb1]\<rparr>"
        have eq: "logUserInteraction w i cfg sb = logUserInteraction w i None ?sb2"
          using again Threw
          by (simp add: logUserInteraction_attempt[OF True] retryLogInteraction_again)
        have "maxRetries - retryCount ?sb2 < maxRetries - retryCount sb"
          using again by (auto intro: diff_less_mono2)
        from less[OF this, of None] obtain rows where
          "inserted (snd (logUserInteraction w i None ?sb2)) = inserted ?sb2 @ rows"
          "\<forall>row\<in>set rows. \<exists>q t. row = interactionData i (userEmail (the (config ?sb2))) q t"
          by blast
        then have "inserted (snd (logUserInteraction w i cfg sb)) = inserted sb @ (?row # rows)"
          and "\<forall>r\<in>set (?row # rows). \<exists>q t. r = interactionData i (userEmail (the (config sb))) q t"
          using row by (auto simp: eq)
        then show ?thesis by blast
      qed
    qed
  qed
qed

lemma sink_success_resets:
  "fst (logUserInteraction w i cfg sb) = Inr True \<Longrightarrow>
     retryCount (snd (logUserInteraction w i cfg sb)) = 0"
proof (induction "maxRetries - retryCount sb" arbitrary: sb cfg rule: less_induct)
  case less
  show ?case
  proof (cases "passesGuards i sb")
    case False
    then show ?thesis using less.prems by (simp add: logUserInteraction_guarded)
  next
    case True
    let ?row = "attemptRow w i cfg sb"
    let ?sb1 = "sb\<lparr>inserted := inserted sb @ [?row]\<rparr>"
    show ?thesis
    proof (cases "insertOutcome w (length (inserted sb)) ?row")
      case (Returned x)
      then show ?thesis
        using less.prems by (cases x) (auto simp: logUserInteraction_attempt[OF True])
    next
      case (Threw e)
      show ?thesis
      proof (cases "retryable e \<and> retryCount sb < maxRetries")
        case False
        then show ?thesis
          using Threw less.prems
          by (auto simp: logUserInteraction_attempt[OF True] retryLogInteraction_exhausted)
      next
        case again: True
        let ?sb2 = "?sb1\<lparr>retryCount := Suc (retryCount ?sb1),
                         delays := delays ?sb1 @ [retryDelay * 2 ^ retryCount ?sb1]\<rparr>"
        have eq: "logUserInteraction w i cfg sb = logUserInteraction w i None ?sb2"
          using again Threw
          by (simp add: logUserInteraction_attempt[OF True] retryLogInteraction_again)
        have "maxRetries - retryCount ?sb2 < maxRetries - retryCount sb"
          using again by (auto intro: diff_less_mono2)
        from less.hyps[OF this, of None] less.prems show ?thesis
          by (simp add: eq)
      qed
    qed
  qed
qed

lemma sink_attempts:
  assumes "passesGuards i sb"
  shows "\<exists>n. 1 \<le> n \<and> n \<le> maxRetries - retryCount sb + 1 \<and>
     length (inserted (snd (logUserInteraction w i cfg sb))) = length (inserted sb) + n \<and>
     delays (snd (logUserInteraction w i cfg sb)) =
       delays sb @ map (\<lambda>k. retryDelay * 2 ^ (k - 1)) [retryCount sb + 1 ..< retryCount sb + n]"
  using assms
proof (induction "maxRetries - retryCount sb" arbitrary: sb cfg rule: less_induct)
  case less
  note True = less.prems
  let ?row = "attemptRow w i cfg sb"
  let ?sb1 = "sb\<lparr>inserted := inserted sb @ [?row]\<rparr>"
  let ?f = "\<lambda>k. retryDelay * 2 ^ (k - 1)"
  let ?c = "retryCount sb"
  show ?case
  proof (cases "insertOutcome w (length (inserted sb)) ?row")
    case (Returned x)
    then show ?thesis
      by (cases x) (auto simp: logUserInteraction_attempt[OF True] intro!: exI[of _ 1])
  next
    case (Threw e)
    show ?thesis
    proof (cases "retryable e \<and> retryCount sb < maxRetries")
      case False
      then show ?thesis
        using Threw
        by (auto simp: logUserInteraction_attempt[OF True] retryLogInteraction_exhausted
              intro!: exI[of _ 1])
    next
      case again: True
      let ?sb2 = "?sb1\<lparr>retryCount := Suc (retryCount ?sb1),
                       delays := delays ?sb1 @ [retryDelay * 2 ^ retryCount ?sb1]\<rparr>"
      have eq: "logUserInteraction w i cfg sb = logUserInteraction w i None ?sb2"
        using again Threw
        by (simp add: logUserInteraction_attempt[OF True] retryLogInteraction_again)
      have m: "maxRetries - retryCount ?sb2 < maxRetries - retryCount sb"
        using again by (auto intro: diff_less_mono2)
      have g: "passesGuards i ?sb2" using True by simp
      from less.hyps[OF m g, of None] obtain n where n:
        "1 \<le> n" "n \<le> maxRetries - Suc ?c + 1"
        "length (inserted (snd (logUserInteraction w i None ?sb2))) = length (inserted sb) + 1 + n"
        "delays (snd (logUserInteraction w i None ?sb2)) =
           (delays sb @ [retryDelay * 2 ^ ?c]) @ map ?f [Suc ?c + 1 ..< Suc ?c + n]"
        by auto
      have upt: "[?c + 1 ..< ?c + Suc n] = (?c + 1) # [Suc ?c + 1 ..< Suc ?c + n]"
        using n(1) by (simp add: upt_conv_Cons)
      have "1 \<le> Suc n" "Suc n \<le> maxRetries - ?c + 1"
        using n(2) again by auto
      moreover have "length (inserted (snd (logUserInteraction w i cfg sb))) =
                     length (inserted sb) + Suc n"
        using n(3) by (simp add: eq)
      moreover have "delays (snd (logUserInteraction w i cfg sb)) =
                     delays sb @ map ?f [?c + 1 ..< ?c + Suc n]"
        unfolding upt using n(4) by (simp add: eq)
      ultimately show ?thesis by blast
    qed
  qed
qed

lemma prompt_id_attemptRow [simp]: "prompt_id (attemptRow w i cfg sb) = prompt_id i"
  by (simp add: attemptRow_def interactionData_def)

lemma sink_gives_up:
  assumes "passesGuards i sb"
    and "\<And>k row. prompt_id row = prompt_id i \<Longrightarrow>
           \<exists>e. insertOutcome w k row = Threw e \<and> retryable e"
  shows "fst (logUserInteraction w i cfg sb) = Inr False \<and>
     retryCount (snd (logUserInteraction w i cfg sb)) = 0 \<and>
     length (inserted (snd (logUserInteraction w i cfg sb))) =
       length (inserted sb) + (maxRetries - retryCount sb) + 1"
  using assms(1)
proof (induction "maxRetries - retryCount sb" arbitrary: sb cfg rule: less_induct)
  case less
  note True = less.prems
  let ?row = "attemptRow w i cfg sb"
  let ?sb1 = "sb\<lparr>inserted := inserted sb @ [?row]\<rparr>"
  obtain e where Threw: "insertOutcome w (length (inserted sb)) ?row = Threw e" and e: "retryable e"
    using assms(2)[of ?row] by auto
  show ?case
  proof (cases "retryCount sb < maxRetries")
    case False
    then show ?thesis
      using Threw e
      by (auto simp: logUserInteraction_attempt[OF True] retryLogInteraction_exhausted)
  next
    case again: True
    let ?sb2 = "?sb1\<lparr>retryCount := Suc (retryCount ?sb1),
                     delays := delays ?sb1 @ [retryDelay * 2 ^ retryCount ?sb1]\<rparr>"
    have eq: "logUserInteraction w i cfg sb = logUserInteraction w i None ?sb2"
      using again Threw e
      by (simp add: logUserInteraction_attempt[OF True] retryLogInteraction_again)
    have m: "maxRetries - retryCount ?sb2 < maxRetries - retryCount sb"
      using again by (auto intro: diff_less_mono2)
    have g: "passesGuards i ?sb2" using True by simp
    from less.hyps[OF m g, of None] again show ?thesis
      by (auto simp: eq)
  qed
qed


lemma tokenCounts_interactionData:
  "tokenCounts (interactionData i email q t) =
   map (\<lambda>v. if isInteger v then v else Some (Integer 0)) (tokenCounts i)"
  by (simp add: tokenCounts_def interactionData_def)

text \<open>
  Claim C9, as the code has it. Every row that a call of \<^verbatim>\<open>logUserInteraction\<close> hands
  to \<^verbatim>\<open>insert\<close>, on the first attempt or on a retry, has six token fields that are
  integers: a submitted field that is an integer is sent as it is, whatever its sign,
  and one that is no integer or is missing is sent as 0. So the six fields sent are
  non-negative integers whenever the submitted ones that are integers are
  non-negative.
\<close>

theorem logUserInteraction_sends_coerced_token_counts:
  "\<forall>row \<in> set (drop (length (inserted sb)) (inserted (snd (logUserInteraction w i cfg sb)))).
      tokenCounts row = map (\<lambda>v. if isInteger v then v else Some (Integer 0)) (tokenCounts i)
    \<and> list_all isInteger (tokenCounts row)
    \<and> (list_all (\<lambda>v. isInteger v \<longrightarrow> isNonNegativeInteger v) (tokenCounts i) \<longrightarrow>
         list_all isNonNegativeInteger (tokenCounts row))"
proof -
  obtain rows where rows:
    "inserted (snd (logUserInteraction w i cfg sb)) = inserted sb @ rows"
    "\<forall>row\<in>set rows. \<exists>q t. row = interactionData i (userEmail (the (config sb))) q t"
    using sink_rows by blast
  have "tokenCounts row = map (\<lambda>v. if isInteger v then v else Some (Integer 0)) (tokenCounts i)
    \<and> list_all isInteger (tokenCounts row)
    \<and> (list_all (\<lambda>v. isInteger v \<longrightarrow> isNonNegativeInteger v) (tokenCounts i) \<longrightarrow>
         list_all isNonNegativeInteger (tokenCounts row))" if "row \<in> set rows" for row
  proof -
    from rows(2) that obtain q t where
      "row = interactionData i (userEmail (the (config sb))) q t" by blast
    then have tc: "tokenCounts row =
        map (\<lambda>v. if isInteger v then v else Some (Integer 0)) (tokenCounts i)"
      by (simp add: tokenCounts_interactionData)
    show ?thesis
      unfolding tc by (auto simp: list_all_iff)
  qed
  moreover have "drop (length (inserted sb)) (inserted (snd (logUserInteraction w i cfg sb))) = rows"
    by (simp add: rows(1))
  ultimately show ?thesis
    by (simp only:) blast
qed

theorem logUserInteraction_sends_coerced_token_counts_witness:
  "map tokenCounts (inserted (snd (logUserInteraction alwaysOk sanitizeInput None testSupabase)))
   = [[Some (Integer 0), Some (Integer 0), Some (Integer 30),
       Some (Integer 0), Some (Integer 0), Some (Integer 0)]]"
proof -
  have g: "passesGuards sanitizeInput testSupabase"
    by (simp add: passesGuards_def isEnabled_def testSupabase_def sanitizeInput_def
          toInteraction_def mockTrackingData_def)
  have one: "inserted (snd (logUserInteraction alwaysOk sanitizeInput None testSupabase)) =
             [attemptRow alwaysOk sanitizeInput None testSupabase]"
    unfolding logUserInteraction_attempt[OF g]
    by (simp add: alwaysOk_def testSupabase_def)
  have tc: "tokenCounts sanitizeInput = [Some NonInteger, None, Some (Integer 30), None, None, None]"
    by (simp add: tokenCounts_def sanitizeInput_def toInteraction_def mockTrackingData_def)
  have none: "inserted testSupabase = []"
    by (simp add: testSupabase_def)
  show ?thesis
    using logUserInteraction_sends_coerced_token_counts[of testSupabase alwaysOk sanitizeInput None]
    by (simp add: one tc none)
qed

text \<open>
  Claim C9 as stated fails: a record submitted with the input token count -5 is sent,
  with success, as a row whose input token count is -5.
\<close>

theorem negative_token_count_reaches_sink:
  "fst (logUserInteraction alwaysOk negativeInput None testSupabase) = Inr True
   \<and> map input_token_count
        (inserted (snd (logUserInteraction alwaysOk negativeInput None testSupabase)))
      = [Some (Integer (- 5))]
   \<and> \<not> list_all isNonNegativeInteger
          (map input_token_count
             (inserted (snd (logUserInteraction alwaysOk negativeInput None testSupabase))))"
proof -
  have g: "passesGuards negativeInput testSupabase"
    by (simp add: passesGuards_def isEnabled_def testSupabase_def negativeInput_def
          toInteraction_def mockTrackingData_def)
  show ?thesis
    unfolding logUserInteraction_attempt[OF g]
    by (simp add: alwaysOk_def testSupabase_def attemptRow_def interactionData_def
          negativeInput_def toInteraction_def mockTrackingData_def)
qed

text \<open>
  A call of \<^verbatim>\<open>logUserInteraction\<close> that passes the guards, run with no other call of the
  sink between its awaits: its attempts, its waits, its result.
\<close>

lemma call_alone_retry_policy:
  assumes "passesGuards i sb"
  shows "(\<exists>n. 1 \<le> n \<and> n \<le> maxRetries - retryCount sb + 1 \<and> n \<le> 4 \<and>
            length (inserted (snd (logUserInteraction w i cfg sb))) = length (inserted sb) + n \<and>
            delays (snd (logUserInteraction w i cfg sb)) =
              delays sb @ map (\<lambda>k. 1000 * 2 ^ (k - 1))
                            [retryCount sb + 1 ..< retryCount sb + n])
     \<and> (fst (logUserInteraction w i cfg sb) = Inr True \<longrightarrow>
          retryCount (snd (logUserInteraction w i cfg sb)) = 0)
     \<and> ((\<forall>k row. \<exists>e. insertOutcome w k row = Threw e \<and> retryable e) \<and> retryCount sb = 0 \<longrightarrow>
          fst (logUserInteraction w i cfg sb) = Inr False \<and>
          length (inserted (snd (logUserInteraction w i cfg sb))) = length (inserted sb) + 4 \<and>
          delays (snd (logUserInteraction w i cfg sb)) = delays sb @ [1000, 2000, 4000] \<and>
          retryCount (snd (logUserInteraction w i cfg sb)) = 0)
     \<and> pendingInteractions (dispatch w d s) = pendingInteractions s"
proof -
  let ?sb' = "snd (logUserInteraction w i cfg sb)"
  obtain n where n: "1 \<le> n" "n \<le> maxRetries - retryCount sb + 1"
    "length (inserted ?sb') = length (inserted sb) + n"
    "delays ?sb' = delays sb @ map (\<lambda>k. retryDelay * 2 ^ (k - 1))
                                 [retryCount sb + 1 ..< retryCount sb + n]"
    using sink_attempts[OF assms] by blast
  have A: "\<exists>n. 1 \<le> n \<and> n \<le> maxRetries - retryCount sb + 1 \<and> n \<le> 4 \<and>
            length (inserted ?sb') = length (inserted sb) + n \<and>
            delays ?sb' = delays sb @ map (\<lambda>k. 1000 * 2 ^ (k - 1))
                            [retryCount sb + 1 ..< retryCount sb + n]"
    using n by (intro exI[of _ n]) (auto simp: maxRetries_def retryDelay_def)
  have B: "fst (logUserInteraction w i cfg sb) = Inr True \<longrightarrow> retryCount ?sb' = 0"
    using sink_success_resets by blast
  have C: "fst (logUserInteraction w i cfg sb) = Inr False \<and>
          length (inserted ?sb') = length (inserted sb) + 4 \<and>
          delays ?sb' = delays sb @ [1000, 2000, 4000] \<and> retryCount ?sb' = 0"
    if all: "\<forall>k row. \<exists>e. insertOutcome w k row = Threw e \<and> retryable e" and c: "retryCount sb = 0"
  proof -
    have gu: "fst (logUserInteraction w i cfg sb) = Inr False \<and> retryCount ?sb' = 0 \<and>
      length (inserted ?sb') = length (inserted sb) + (maxRetries - retryCount sb) + 1"
      using sink_gives_up[OF assms] all by blast
    then have "n = 4" using n(3) c by (simp add: maxRetries_def)
    then have "delays ?sb' = delays sb @ [1000, 2000, 4000]"
      using n(4) c by (simp add: retryDelay_def upt_conv_Cons)
    with gu c show ?thesis by (simp add: maxRetries_def)
  qed
  show ?thesis
    using A B C dispatch_pending by blast
qed


section \<open>The sink with its awaits\<close>

text \<open>
  The callbacks of a batch are all started by \<^verbatim>\<open>batch.map\<close> before any of them
  settles, and they share the one \<^verbatim>\<open>retryCount\<close> of the sink. To follow that, a call of
  \<^verbatim>\<open>logUserInteraction\<close> is cut at its awaits. A call is about to enter the function, or
  waits for \<^verbatim>\<open>getQwenUserEmail\<close>, or waits for the \<^verbatim>\<open>insert\<close> it has issued (which will
  settle with the given outcome), or waits for the \<^verbatim>\<open>setTimeout\<close> of
  \<^verbatim>\<open>retryLogInteraction\<close>, or has resolved.
\<close>

datatype call =
    Entering interaction "Config option"
  | AwaitingEmail interaction Config
  | AwaitingInsert interaction insert_outcome
  | AwaitingTimeout interaction
  | Done bool

text \<open>\<^verbatim>\<open>logUserInteraction\<close> from the object literal to the \<^verbatim>\<open>await\<close> of \<^verbatim>\<open>insert\<close>: the row
  is built and handed to the client.\<close>

definition issue ::
    "world \<Rightarrow> interaction \<Rightarrow> string option \<Rightarrow> SupabaseService \<Rightarrow> call \<times> SupabaseService" where
  "issue w i qwenAccountEmail sb =
     (let row = interactionData i (userEmail (the (config sb))) qwenAccountEmail
                  (isoTime w (length (inserted sb)))
      in (AwaitingInsert i (insertOutcome w (length (inserted sb)) row),
          sb\<lparr>inserted := inserted sb @ [row]\<rparr>))"

text \<open>\<^verbatim>\<open>logUserInteraction\<close> from its entry to its first \<^verbatim>\<open>await\<close>: the two guards, then
  the wait for the account email when a \<^verbatim>\<open>Config\<close> is given, the \<^verbatim>\<open>insert\<close>
  otherwise.\<close>

definition enter ::
    "world \<Rightarrow> interaction \<Rightarrow> Config option \<Rightarrow> SupabaseService \<Rightarrow> call \<times> SupabaseService" where
  "enter w i cfg sb =
     (if \<not> isEnabled sb \<or> \<not> client sb \<or> config sb = None then (Done False, sb)
      else if prompt_text i = [] \<or> prompt_id i = [] \<or> session_id i = [] then (Done False, sb)
      else case cfg of
             Some c \<Rightarrow> (AwaitingEmail i c, sb)
           | None \<Rightarrow> issue w i None sb)"

text \<open>
  One turn of a call: from the await it is at to its next one. After \<^verbatim>\<open>insert\<close> has
  settled this is the rest of \<^verbatim>\<open>logUserInteraction\<close> and, on a retryable throw,
  \<^verbatim>\<open>retryLogInteraction\<close> up to its \<^verbatim>\<open>setTimeout\<close>; after the timeout it is the call
  \<^verbatim>\<open>this.logUserInteraction(interaction)\<close>, with no \<^verbatim>\<open>Config\<close>.
\<close>

fun resume :: "world \<Rightarrow> call \<Rightarrow> SupabaseService \<Rightarrow> call \<times> SupabaseService" where
  "resume w (Entering i cfg) sb = enter w i cfg sb"
| "resume w (AwaitingEmail i c) sb =
     issue w i (case c of EmailThrows \<Rightarrow> None | EmailResolves e \<Rightarrow> e) sb"
| "resume w (AwaitingInsert i (Returned (Some err))) sb = (Done False, sb)"
| "resume w (AwaitingInsert i (Returned None)) sb = (Done True, sb\<lparr>retryCount := 0\<rparr>)"
| "resume w (AwaitingInsert i (Threw e)) sb =
     (if retryable e
      then if retryCount sb \<ge> maxRetries then (Done False, sb\<lparr>retryCount := 0\<rparr>)
           else
             let sb1 = sb\<lparr>retryCount := retryCount sb + 1\<rparr>;
                 delay = retryDelay * 2 ^ (retryCount sb1 - 1)
             in (AwaitingTimeout i, sb1\<lparr>delays := delays sb1 @ [delay]\<rparr>)
      else (Done False, sb))"
| "resume w (AwaitingTimeout i) sb = enter w i None sb"
| "resume w (Done b) sb = (Done b, sb)"

text \<open>The calls of a batch with the sink they share; the event loop resumes the call
  at a given position, and a schedule is the order in which it resumes them.\<close>

definition resumeAt ::
    "world \<Rightarrow> call list \<times> SupabaseService \<Rightarrow> nat \<Rightarrow> call list \<times> SupabaseService" where
  "resumeAt w p k =
     (if k < length (fst p)
      then ((fst p)[k := fst (resume w (fst p ! k) (snd p))],
            snd (resume w (fst p ! k) (snd p)))
      else p)"

definition schedule ::
    "world \<Rightarrow> call list \<times> SupabaseService \<Rightarrow> nat list \<Rightarrow> call list \<times> SupabaseService" where
  "schedule w p ks = foldl (resumeAt w) p ks"

text \<open>A call that is resumed again and again, with no other call in between, resolves:
  each turn brings it nearer to the end of its retries.\<close>

fun rank :: "call \<Rightarrow> SupabaseService \<Rightarrow> nat" where
  "rank (Done b) sb = 0"
| "rank (Entering i cfg) sb = 4 * (maxRetries - retryCount sb) + 3"
| "rank (AwaitingEmail i c) sb = 4 * (maxRetries - retryCount sb) + 2"
| "rank (AwaitingTimeout i) sb = 4 * (maxRetries - retryCount sb) + 2"
| "rank (AwaitingInsert i out) sb = 4 * (maxRetries - retryCount sb) + 1"

lemma rank_enter:
  "rank (fst (enter w i cfg sb)) (snd (enter w i cfg sb)) \<le> 4 * (maxRetries - retryCount sb) + 2"
  by (auto simp: enter_def issue_def Let_def split: option.splits)

lemma rank_enter_None:
  "rank (fst (enter w i None sb)) (snd (enter w i None sb)) \<le> 4 * (maxRetries - retryCount sb) + 1"
  by (auto simp: enter_def issue_def Let_def)

lemma resume_decreases:
  assumes "\<forall>b. c \<noteq> Done b"
  shows "rank (fst (resume w c sb)) (snd (resume w c sb)) < rank c sb"
proof (cases c)
  case (Entering i cfg)
  then show ?thesis using rank_enter[of w i cfg sb] by simp
next
  case (AwaitingEmail i c)
  then show ?thesis by (simp add: issue_def Let_def)
next
  case (AwaitingInsert i out)
  show ?thesis
  proof (cases out)
    case (Returned x)
    then show ?thesis using AwaitingInsert by (cases x) simp_all
  next
    case (Threw e)
    then show ?thesis using AwaitingInsert by (auto simp: Let_def maxRetries_def)
  qed
next
  case (AwaitingTimeout i)
  then show ?thesis using rank_enter_None[of w i sb] by simp
next
  case (Done b)
  then show ?thesis using assms by simp
qed

lemma complete_step:
  "\<forall>b. c \<noteq> Done b \<Longrightarrow>
   ((w, fst (resume w c sb), snd (resume w c sb)), (w, c, sb)) \<in> measure (\<lambda>(w, c, sb). rank c sb)"
  by (simp add: resume_decreases case_prod_beta del: resume.simps rank.simps)

function (sequential) complete :: "world \<Rightarrow> call \<Rightarrow> SupabaseService \<Rightarrow> bool \<times> SupabaseService" where
  "complete w (Done b) sb = (b, sb)"
| "complete w c sb = complete w (fst (resume w c sb)) (snd (resume w c sb))"
  by pat_completeness auto
termination
  by (relation "measure (\<lambda>(w, c, sb). rank c sb)")
     (rule wf_measure | rule complete_step, simp)+

declare complete.simps [simp del]

text \<open>
  Test data: a world where every \<^verbatim>\<open>insert\<close> returns an error whose message names the
  network; the callbacks of a drain of \<^verbatim>\<open>p1\<close> and \<^verbatim>\<open>p2\<close> as \<^verbatim>\<open>batch.map\<close> is about to
  start them; and the order in which the event loop resumes them when the \<^verbatim>\<open>insert\<close>
  of \<^verbatim>\<open>p2\<close> settles during the first wait of \<^verbatim>\<open>p1\<close>: both are started, the \<^verbatim>\<open>insert\<close> of
  \<^verbatim>\<open>p1\<close> settles, the one of \<^verbatim>\<open>p2\<close> settles, and \<^verbatim>\<open>p1\<close> goes on alone.
\<close>

definition returnedNetworkError :: world where
  "returnedNetworkError =
     \<lparr> insertOutcome =
         (\<lambda>n row. Returned (Some \<lparr> code = None, message = ''network timeout'' \<rparr>)),
       isoTime = (\<lambda>n. ''2025-01-02T00:00:00.000Z'') \<rparr>"

definition twoCallbacks :: "call list \<times> SupabaseService" where
  "twoCallbacks =
     ([Entering (toInteraction (mockTrackingData ''p1'')) None,
       Entering (toInteraction (mockTrackingData ''p2'')) None], testSupabase)"

definition p2SettlesDuringWait :: "nat list" where
  "p2SettlesDuringWait = [0, 1, 0, 1, 0, 0, 0, 0, 0, 0, 0, 0]"

lemma complete_Done: "complete w (Done b) sb = (b, sb)"
  by (simp add: complete.simps)

lemma complete_unfold:
  "\<forall>b. c \<noteq> Done b \<Longrightarrow> complete w c sb = complete w (fst (resume w c sb)) (snd (resume w c sb))"
  by (cases c) (auto simp add: complete.simps simp del: resume.simps)

lemma enter_guarded: "\<not> passesGuards i sb \<Longrightarrow> enter w i cfg sb = (Done False, sb)"
  by (auto simp: enter_def passesGuards_def)

lemma issue_attemptRow:
  "issue w i (case cfg of None \<Rightarrow> None | Some EmailThrows \<Rightarrow> None | Some (EmailResolves e) \<Rightarrow> e) sb =
   (AwaitingInsert i (insertOutcome w (length (inserted sb)) (attemptRow w i cfg sb)),
    sb\<lparr>inserted := inserted sb @ [attemptRow w i cfg sb]\<rparr>)"
  by (simp add: issue_def attemptRow_def Let_def)

lemma enter_None:
  "passesGuards i sb \<Longrightarrow>
   enter w i None sb =
   (AwaitingInsert i (insertOutcome w (length (inserted sb)) (attemptRow w i None sb)),
    sb\<lparr>inserted := inserted sb @ [attemptRow w i None sb]\<rparr>)"
  using issue_attemptRow[of w i None sb] by (auto simp: enter_def passesGuards_def)

lemma enter_Some:
  "passesGuards i sb \<Longrightarrow> enter w i (Some c) sb = (AwaitingEmail i c, sb)"
  by (auto simp: enter_def passesGuards_def)

lemma complete_Entering_guarded:
  "\<not> passesGuards i sb \<Longrightarrow> complete w (Entering i cfg) sb = (False, sb)"
  by (subst complete_unfold) (simp_all add: enter_guarded complete_Done)

lemma complete_Entering_attempt:
  assumes "passesGuards i sb"
  shows "complete w (Entering i cfg) sb =
         complete w (AwaitingInsert i (insertOutcome w (length (inserted sb)) (attemptRow w i cfg sb)))
           (sb\<lparr>inserted := inserted sb @ [attemptRow w i cfg sb]\<rparr>)"
proof (cases cfg)
  case None
  then show ?thesis
    by (subst complete_unfold) (simp_all add: enter_None[OF assms])
next
  case (Some c)
  have "complete w (Entering i cfg) sb = complete w (AwaitingEmail i c) sb"
    by (subst complete_unfold) (simp_all add: Some enter_Some[OF assms])
  also have "\<dots> = complete w (fst (resume w (AwaitingEmail i c) sb))
                              (snd (resume w (AwaitingEmail i c) sb))"
    by (rule complete_unfold) simp
  finally show ?thesis
    using issue_attemptRow[of w i "Some c" sb] by (simp add: Some)
qed

lemma complete_AwaitingTimeout:
  "complete w (AwaitingTimeout i) sb = complete w (Entering i None) sb"
  by (subst complete_unfold, simp, subst (2) complete_unfold, simp, simp)

lemma complete_refines:
  "logUserInteraction w i cfg sb =
   (Inr (fst (complete w (Entering i cfg) sb)), snd (complete w (Entering i cfg) sb))"
proof (induction "maxRetries - retryCount sb" arbitrary: sb cfg rule: less_induct)
  case less
  show ?case
  proof (cases "passesGuards i sb")
    case False
    then show ?thesis
      by (simp add: logUserInteraction_guarded complete_Entering_guarded)
  next
    case True
    let ?row = "attemptRow w i cfg sb"
    let ?sb1 = "sb\<lparr>inserted := inserted sb @ [?row]\<rparr>"
    let ?out = "insertOutcome w (length (inserted sb)) ?row"
    have c: "complete w (Entering i cfg) sb = complete w (AwaitingInsert i ?out) ?sb1"
      by (rule complete_Entering_attempt[OF True])
    have u: "complete w (AwaitingInsert i ?out) ?sb1 =
             complete w (fst (resume w (AwaitingInsert i ?out) ?sb1))
                        (snd (resume w (AwaitingInsert i ?out) ?sb1))"
      by (rule complete_unfold) simp
    show ?thesis
    proof (cases ?out)
      case (Returned x)
      then show ?thesis
        unfolding c u
        by (cases x) (simp_all add: logUserInteraction_attempt[OF True] complete_Done)
    next
      case (Threw e)
      show ?thesis
      proof (cases "retryable e \<and> retryCount sb < maxRetries")
        case False
        then show ?thesis
          unfolding c u using Threw
          by (auto simp: logUserInteraction_attempt[OF True] retryLogInteraction_exhausted
                complete_Done)
      next
        case again: True
        let ?sb2 = "?sb1\<lparr>retryCount := Suc (retryCount ?sb1),
                         delays := delays ?sb1 @ [retryDelay * 2 ^ retryCount ?sb1]\<rparr>"
        have eq: "logUserInteraction w i cfg sb = logUserInteraction w i None ?sb2"
          using again Threw
          by (simp add: logUserInteraction_attempt[OF True] retryLogInteraction_again)
        have "complete w (AwaitingInsert i ?out) ?sb1 = complete w (AwaitingTimeout i) ?sb2"
          unfolding u using again Threw by (simp add: Let_def)
        then have ceq: "complete w (Entering i cfg) sb = complete w (Entering i None) ?sb2"
          by (simp only: c complete_AwaitingTimeout)
        have "maxRetries - retryCount ?sb2 < maxRetries - retryCount sb"
          using again by (auto intro: diff_less_mono2)
        from less[OF this, of None] show ?thesis
          by (simp only: eq ceq)
      qed
    qed
  qed
qed

lemma resume_bounds:
  assumes "retryCount sb \<le> maxRetries"
  shows "retryCount (snd (resume w c sb)) \<le> maxRetries \<and>
         set (delays (snd (resume w c sb))) \<subseteq> set (delays sb) \<union> {1000, 2000, 4000}"
proof (cases c)
  case (AwaitingInsert i out)
  show ?thesis
  proof (cases out)
    case (Returned x)
    then show ?thesis using AwaitingInsert assms by (cases x) auto
  next
    case (Threw e)
    have "retryCount sb = 0 \<or> retryCount sb = 1 \<or> retryCount sb = 2 \<or> retryCount sb \<ge> maxRetries"
      by (auto simp: maxRetries_def)
    then show ?thesis
      using AwaitingInsert Threw assms
      by (auto simp: Let_def maxRetries_def retryDelay_def)
  qed
qed (use assms in \<open>auto simp: enter_def issue_def Let_def split: option.splits\<close>)

lemma schedule_bounds:
  assumes "retryCount (snd p) \<le> maxRetries"
  shows "retryCount (snd (schedule w p ks)) \<le> maxRetries \<and>
         set (delays (snd (schedule w p ks))) \<subseteq> set (delays (snd p)) \<union> {1000, 2000, 4000}"
  using assms
proof (induction ks arbitrary: p)
  case Nil
  then show ?case by (auto simp: schedule_def)
next
  case (Cons k ks)
  let ?p1 = "resumeAt w p k"
  have 1: "retryCount (snd ?p1) \<le> maxRetries \<and>
           set (delays (snd ?p1)) \<subseteq> set (delays (snd p)) \<union> {1000, 2000, 4000}"
    using resume_bounds[OF Cons.prems, of w "fst p ! k"] Cons.prems
    by (auto simp add: resumeAt_def simp del: resume.simps)
  from Cons.IH[of ?p1] 1 have
    "retryCount (snd (schedule w ?p1 ks)) \<le> maxRetries \<and>
     set (delays (snd (schedule w ?p1 ks))) \<subseteq> set (delays (snd ?p1)) \<union> {1000, 2000, 4000}"
    by blast
  with 1 show ?case
    by (auto simp: schedule_def)
qed


lemma schedule_p2SettlesDuringWait:
  "fst (schedule p1Down twoCallbacks p2SettlesDuringWait) = [Done False, Done True]
 \<and> map prompt_id (inserted (snd (schedule p1Down twoCallbacks p2SettlesDuringWait))) =
     [''p1'', ''p2'', ''p1'', ''p1'', ''p1'', ''p1'']
 \<and> delays (snd (schedule p1Down twoCallbacks p2SettlesDuringWait)) = [1000, 1000, 2000, 4000]
 \<and> retryCount (snd (schedule p1Down twoCallbacks p2SettlesDuringWait)) = 0"
  by (simp add: schedule_def twoCallbacks_def p2SettlesDuringWait_def resumeAt_def enter_def
        issue_def Let_def isEnabled_def testSupabase_def p1Down_def interactionData_def
        toInteraction_def mockTrackingData_def maxRetries_def retryDelay_def)


lemma returned_error_is_not_retried:
  assumes "passesGuards i sb"
    and "insertOutcome w (length (inserted sb)) (attemptRow w i cfg sb) = Returned (Some err)"
  shows "logUserInteraction w i cfg sb =
         (Inr False, sb\<lparr>inserted := inserted sb @ [attemptRow w i cfg sb]\<rparr>)"
  using assms(2) by (simp add: logUserInteraction_attempt[OF assms(1)])

text \<open>
  Claim C6 as stated fails, in three ways. With the network down, a call that runs
  alone hands one record to \<^verbatim>\<open>insert\<close> 4 times, not at most 3. When the \<^verbatim>\<open>insert\<close> of
  \<^verbatim>\<open>p2\<close> succeeds during the first wait of \<^verbatim>\<open>p1\<close>, whose every \<^verbatim>\<open>insert\<close> throws a
  network error, \<^verbatim>\<open>p1\<close> is handed to \<^verbatim>\<open>insert\<close> 5 times, with waits of 1000, 1000, 2000
  and 4000 milliseconds. And a network error that \<^verbatim>\<open>insert\<close> returns, rather than
  throws, ends the call at once: one attempt, no wait, no retry.
\<close>

theorem retry_attempts_are_not_at_most_three:
  "length (inserted (snd (logUserInteraction networkDown
             (toInteraction (mockTrackingData ''test-prompt-id'')) None testSupabase))) = 4
 \<and> \<not> length (inserted (snd (logUserInteraction networkDown
             (toInteraction (mockTrackingData ''test-prompt-id'')) None testSupabase))) \<le> 3
 \<and> map prompt_id (inserted (snd (schedule p1Down twoCallbacks p2SettlesDuringWait))) =
     [''p1'', ''p2'', ''p1'', ''p1'', ''p1'', ''p1'']
 \<and> delays (snd (schedule p1Down twoCallbacks p2SettlesDuringWait)) = [1000, 1000, 2000, 4000]
 \<and> includes_str ''network timeout'' ''network''
 \<and> fst (logUserInteraction returnedNetworkError
             (toInteraction (mockTrackingData ''test-prompt-id'')) None testSupabase) = Inr False
 \<and> length (inserted (snd (logUserInteraction returnedNetworkError
             (toInteraction (mockTrackingData ''test-prompt-id'')) None testSupabase))) = 1
 \<and> delays (snd (logUserInteraction returnedNetworkError
             (toInteraction (mockTrackingData ''test-prompt-id'')) None testSupabase)) = []"
proof -
  let ?i = "toInteraction (mockTrackingData ''test-prompt-id'')"
  have r: "retryable (ErrorObject ''network error'')"
    by simp
  have g: "passesGuards ?i testSupabase"
    by (simp add: passesGuards_def isEnabled_def testSupabase_def
          toInteraction_def mockTrackingData_def)
  have "\<And>k row. \<exists>e. insertOutcome networkDown k row = Threw e \<and> retryable e"
    using r by (simp add: networkDown_def)
  from sink_gives_up[OF g this, of None]
  have a: "length (inserted (snd (logUserInteraction networkDown ?i None testSupabase))) = 4"
    by (simp add: maxRetries_def testSupabase_def)
  have out: "insertOutcome returnedNetworkError (length (inserted testSupabase))
               (attemptRow returnedNetworkError ?i None testSupabase) =
             Returned (Some \<lparr> code = None, message = ''network timeout'' \<rparr>)"
    by (simp add: returnedNetworkError_def)
  have c: "fst (logUserInteraction returnedNetworkError ?i None testSupabase) = Inr False"
    "length (inserted (snd (logUserInteraction returnedNetworkError ?i None testSupabase))) = 1"
    "delays (snd (logUserInteraction returnedNetworkError ?i None testSupabase)) = []"
    unfolding returned_error_is_not_retried[OF g out] by (simp_all add: testSupabase_def)
  have n: "includes_str ''network timeout'' ''network''"
    by simp
  from a c n schedule_p2SettlesDuringWait show ?thesis
    by simp
qed

text \<open>
  Claim C6, as the code has it. A call of \<^verbatim>\<open>logUserInteraction\<close> that passes the
  guards and runs with no other call of the sink between its awaits makes a first
  attempt and at most \<^verbatim>\<open>maxRetries\<close> = 3 retries, so at most 4 attempts, and the retry
  that follows the counter's increment to \<open>k\<close> waits \<open>1000 * 2 ^ (k - 1)\<close>
  milliseconds; when it resolves to true the shared counter is 0; when every attempt
  throws a retryable error and the counter starts at 0, it makes 4 attempts, waits
  1000, 2000 and 4000 milliseconds, resolves to false and leaves the counter at 0.
  Such a call is the call cut at its awaits and resumed alone. In whatever order the
  calls of a batch are resumed, the shared counter stays at most \<^verbatim>\<open>maxRetries\<close> and
  every wait is 1000, 2000 or 4000 milliseconds; an \<^verbatim>\<open>insert\<close> that succeeds sets the
  counter to 0; a retryable throw that finds the counter below \<^verbatim>\<open>maxRetries\<close>
  increments it and waits \<open>1000 * 2 ^ (k - 1)\<close> for its new value \<open>k\<close>, and one that
  finds it at \<^verbatim>\<open>maxRetries\<close> resets it to 0 and resolves the call to false. The tracker
  does not put a dispatched record back, so the record is gone. Nothing is said of
  the number of attempts of a call that other calls interleave with, nor of a retry
  after an error that \<^verbatim>\<open>insert\<close> returns.
\<close>

theorem logUserInteraction_retry_policy:
  "(passesGuards i sb \<longrightarrow>
      (\<exists>n. 1 \<le> n \<and> n \<le> maxRetries - retryCount sb + 1 \<and> n \<le> 4 \<and>
            length (inserted (snd (logUserInteraction w i cfg sb))) = length (inserted sb) + n \<and>
            delays (snd (logUserInteraction w i cfg sb)) =
              delays sb @ map (\<lambda>k. 1000 * 2 ^ (k - 1))
                            [retryCount sb + 1 ..< retryCount sb + n])
     \<and> (fst (logUserInteraction w i cfg sb) = Inr True \<longrightarrow>
          retryCount (snd (logUserInteraction w i cfg sb)) = 0)
     \<and> ((\<forall>k row. \<exists>e. insertOutcome w k row = Threw e \<and> retryable e) \<and> retryCount sb = 0 \<longrightarrow>
          fst (logUserInteraction w i cfg sb) = Inr False \<and>
          length (inserted (snd (logUserInteraction w i cfg sb))) = length (inserted sb) + 4 \<and>
          delays (snd (logUserInteraction w i cfg sb)) = delays sb @ [1000, 2000, 4000] \<and>
          retryCount (snd (logUserInteraction w i cfg sb)) = 0))
 \<and> logUserInteraction w i cfg sb =
     (Inr (fst (complete w (Entering i cfg) sb)), snd (complete w (Entering i cfg) sb))
 \<and> (retryCount (snd p) \<le> maxRetries \<longrightarrow>
      retryCount (snd (schedule w p ks)) \<le> maxRetries \<and>
      set (delays (snd (schedule w p ks))) \<subseteq> set (delays (snd p)) \<union> {1000, 2000, 4000})
 \<and> resume w (AwaitingInsert i (Returned None)) sb = (Done True, sb\<lparr>retryCount := 0\<rparr>)
 \<and> (retryable e \<and> retryCount sb < maxRetries \<longrightarrow>
      resume w (AwaitingInsert i (Threw e)) sb =
        (AwaitingTimeout i,
         sb\<lparr>retryCount := retryCount sb + 1,
            delays := delays sb @ [1000 * 2 ^ retryCount sb]\<rparr>))
 \<and> (retryable e \<and> maxRetries \<le> retryCount sb \<longrightarrow>
      resume w (AwaitingInsert i (Threw e)) sb = (Done False, sb\<lparr>retryCount := 0\<rparr>))
 \<and> pendingInteractions (dispatch w d s) = pendingInteractions s"
  (is "?alone \<and> ?refines \<and> ?bounds \<and> ?success \<and> ?again \<and> ?giveup \<and> ?dropped")
proof -
  have 1: ?alone
    using call_alone_retry_policy[of i sb w cfg] by blast
  have 2: ?refines by (rule complete_refines)
  have 3: ?bounds using schedule_bounds[of p w ks] by blast
  have 4: ?success by simp
  have 5: ?again by (simp add: Let_def retryDelay_def)
  have 6: ?giveup by simp
  have 7: ?dropped by (rule dispatch_pending)
  from 1 2 3 4 5 6 7 show ?thesis by blast
qed

theorem logUserInteraction_retry_policy_witness:
  "passesGuards (toInteraction (mockTrackingData ''test-prompt-id'')) testSupabase
   \<and> fst (logUserInteraction networkDown
             (toInteraction (mockTrackingData ''test-prompt-id'')) None testSupabase) = Inr False
   \<and> delays (snd (logUserInteraction networkDown
             (toInteraction (mockTrackingData ''test-prompt-id'')) None testSupabase))
      = [1000, 2000, 4000]
   \<and> fst (logUserInteraction alwaysOk
             (toInteraction (mockTrackingData ''test-prompt-id'')) None testSupabase) = Inr True
   \<and> retryCount (snd (logUserInteraction alwaysOk
             (toInteraction (mockTrackingData ''test-prompt-id'')) None testSupabase)) = 0
   \<and> retryCount (snd twoCallbacks) \<le> maxRetries
   \<and> retryCount (snd (schedule p1Down twoCallbacks p2SettlesDuringWait)) \<le> maxRetries
   \<and> retryable (ErrorObject ''network error'')
   \<and> retryCount testSupabase < maxRetries
   \<and> fst (resume networkDown
        (AwaitingInsert (toInteraction (mockTrackingData ''test-prompt-id''))
           (Threw (ErrorObject ''network error''))) testSupabase)
      = AwaitingTimeout (toInteraction (mockTrackingData ''test-prompt-id''))
   \<and> maxRetries \<le> retryCount (testSupabase\<lparr>retryCount := 3\<rparr>)
   \<and> fst (resume networkDown
        (AwaitingInsert (toInteraction (mockTrackingData ''test-prompt-id''))
           (Threw (ErrorObject ''network error''))) (testSupabase\<lparr>retryCount := 3\<rparr>))
      = Done False"
proof -
  let ?i = "toInteraction (mockTrackingData ''test-prompt-id'')"
  let ?e = "ErrorObject ''network error''"
  have r: "retryable ?e"
    by simp
  have g: "passesGuards ?i testSupabase"
    by (simp add: passesGuards_def isEnabled_def testSupabase_def
          toInteraction_def mockTrackingData_def)
  have all: "\<forall>k row. \<exists>e. insertOutcome networkDown k row = Threw e \<and> retryable e"
    using r by (simp add: networkDown_def)
  have c: "retryCount testSupabase = 0" "delays testSupabase = []"
    by (simp_all add: testSupabase_def)
  have b: "retryCount (snd twoCallbacks) \<le> maxRetries"
    by (simp add: twoCallbacks_def testSupabase_def)
  have lt: "retryCount testSupabase < maxRetries"
    "maxRetries \<le> retryCount (testSupabase\<lparr>retryCount := 3\<rparr>)"
    by (simp_all add: testSupabase_def maxRetries_def)
  have ok: "fst (logUserInteraction alwaysOk ?i None testSupabase) = Inr True"
    by (simp add: logUserInteraction_attempt[OF g] alwaysOk_def)
  note th = logUserInteraction_retry_policy[where i = ?i and sb = testSupabase
              and w = networkDown and cfg = None]
  from th g all c
  have 1: "fst (logUserInteraction networkDown ?i None testSupabase) = Inr False \<and>
     delays (snd (logUserInteraction networkDown ?i None testSupabase)) = [1000, 2000, 4000]"
    by (metis append_Nil)
  from logUserInteraction_retry_policy[where i = ?i and sb = testSupabase
         and w = alwaysOk and cfg = None] ok g
  have 2: "retryCount (snd (logUserInteraction alwaysOk ?i None testSupabase)) = 0"
    by blast
  from logUserInteraction_retry_policy[where p = twoCallbacks and w = p1Down
         and ks = p2SettlesDuringWait] b
  have 3: "retryCount (snd (schedule p1Down twoCallbacks p2SettlesDuringWait)) \<le> maxRetries"
    by blast
  from logUserInteraction_retry_policy[where i = ?i and sb = testSupabase
         and w = networkDown and e = ?e] r lt(1)
  have 4: "fst (resume networkDown (AwaitingInsert ?i (Threw ?e)) testSupabase) =
           AwaitingTimeout ?i"
    by (metis fst_conv)
  from logUserInteraction_retry_policy[where i = ?i and sb = "testSupabase\<lparr>retryCount := 3\<rparr>"
         and w = networkDown and e = ?e] r lt(2)
  have 5: "fst (resume networkDown (AwaitingInsert ?i (Threw ?e))
             (testSupabase\<lparr>retryCount := 3\<rparr>)) = Done False"
    by (metis fst_conv)
  from g 1 ok 2 b 3 r lt 4 5 show ?thesis
    by blast
qed


section \<open>Updating a pending record\<close>

lemma findIndex_Some:
  "findIndex P xs = Some k \<Longrightarrow> k < length xs \<and> P (xs ! k) \<and> (\<forall>j<k. \<not> P (xs ! j))"
proof (induction xs arbitrary: k)
  case Nil
  then show ?case by simp
next
  case (Cons x xs)
  show ?case
  proof (cases "P x")
    case True
    with Cons.prems show ?thesis by simp
  next
    case False
    with Cons.prems obtain n where n: "findIndex P xs = Some n" "k = Suc n"
      by (auto split: option.splits)
    from Cons.IH[OF n(1)] False show ?thesis
      by (auto simp: n(2) less_Suc_eq_0_disj)
  qed
qed

lemma findIndex_None: "findIndex P xs = None \<longleftrightarrow> (\<forall>x\<in>set xs. \<not> P x)"
  by (induction xs) (auto split: option.splits)

lemma findIndex_first:
  assumes "k < length xs" "P (xs ! k)" "\<forall>j<k. \<not> P (xs ! j)"
  shows "findIndex P xs = Some k"
proof (cases "findIndex P xs")
  case None
  then show ?thesis using assms(1,2) by (auto simp: findIndex_None)
next
  case (Some n)
  from findIndex_Some[OF Some] assms have "n = k"
    by (meson linorder_neqE_nat)
  with Some show ?thesis by simp
qed

text \<open>
  Claim C5, as the code has it. While the sink is not enabled
  \<^verbatim>\<open>updateInteractionWithResponse\<close> changes nothing. While it is enabled and a pending
  record has the given \<^verbatim>\<open>promptId\<close>, the first such record is replaced, at its
  position, by its merge with the response: each of the six scalar fields of the
  response overwrites the record's when the response has the key, the metadata
  becomes the key-wise merge in which a key of the response wins, and every other
  field stays; no other record and nothing else of the tracker changes, and the
  pending count and the order of the identifiers stay. When no pending record has
  the identifier the call changes nothing.
\<close>

theorem updateInteractionWithResponse_merges_in_place:
  "(\<not> isEnabled (supabaseService s) \<longrightarrow> updateInteractionWithResponse pid r s = s)
 \<and> ((\<forall>d\<in>set (pendingInteractions s). promptId d \<noteq> pid) \<longrightarrow>
       updateInteractionWithResponse pid r s = s)
 \<and> (isEnabled (supabaseService s) \<longrightarrow>
      (\<forall>k. k < length (pendingInteractions s) \<and> promptId (pendingInteractions s ! k) = pid \<and>
           (\<forall>j<k. promptId (pendingInteractions s ! j) \<noteq> pid) \<longrightarrow>
        (let old = pendingInteractions s ! k;
             new = pendingInteractions (updateInteractionWithResponse pid r s) ! k
         in updateInteractionWithResponse pid r s =
               s\<lparr>pendingInteractions := (pendingInteractions s)[k := new]\<rparr>
           \<and> length (pendingInteractions (updateInteractionWithResponse pid r s)) =
               length (pendingInteractions s)
           \<and> map promptId (pendingInteractions (updateInteractionWithResponse pid r s)) =
               map promptId (pendingInteractions s)
           \<and> outputTokenCount new = overwrite (outputTokenCount old) (resp_outputTokenCount r)
           \<and> totalTokenCount new = overwrite (totalTokenCount old) (resp_totalTokenCount r)
           \<and> cachedTokenCount new = overwrite (cachedTokenCount old) (resp_cachedTokenCount r)
           \<and> thoughtsTokenCount new =
               overwrite (thoughtsTokenCount old) (resp_thoughtsTokenCount r)
           \<and> toolTokenCount new = overwrite (toolTokenCount old) (resp_toolTokenCount r)
           \<and> responseDurationMs new =
               overwrite (responseDurationMs old) (resp_responseDurationMs r)
           \<and> (\<exists>m. metadata new = Some m \<and>
                 (\<forall>key. m key = (case spread (resp_metadata r) key of
                                    Some v \<Rightarrow> Some v
                                  | None \<Rightarrow> spread (metadata old) key)))
           \<and> new\<lparr> outputTokenCount := outputTokenCount old,
                   totalTokenCount := totalTokenCount old,
                   cachedTokenCount := cachedTokenCount old,
                   thoughtsTokenCount := thoughtsTokenCount old,
                   toolTokenCount := toolTokenCount old,
                   responseDurationMs := responseDurationMs old,
                   metadata := metadata old \<rparr> = old)))"
proof (intro conjI impI allI)
  show "updateInteractionWithResponse pid r s = s" if "\<not> isEnabled (supabaseService s)"
    using that by (simp add: updateInteractionWithResponse_def)
  show "updateInteractionWithResponse pid r s = s"
    if "\<forall>d\<in>set (pendingInteractions s). promptId d \<noteq> pid"
  proof -
    have "findIndex (\<lambda>interaction. promptId interaction = pid) (pendingInteractions s) = None"
      using that by (simp add: findIndex_None)
    then show ?thesis by (simp add: updateInteractionWithResponse_def)
  qed
next
  fix k
  assume en: "isEnabled (supabaseService s)"
    and k: "k < length (pendingInteractions s) \<and> promptId (pendingInteractions s ! k) = pid \<and>
            (\<forall>j<k. promptId (pendingInteractions s ! j) \<noteq> pid)"
  let ?old = "pendingInteractions s ! k"
  have fi: "findIndex (\<lambda>interaction. promptId interaction = pid) (pendingInteractions s) = Some k"
    using k by (intro findIndex_first) auto
  have upd: "updateInteractionWithResponse pid r s =
             s\<lparr>pendingInteractions := (pendingInteractions s)[k := mergeResponse ?old r]\<rparr>"
    using en fi by (simp add: updateInteractionWithResponse_def)
  have new: "pendingInteractions (updateInteractionWithResponse pid r s) ! k = mergeResponse ?old r"
    using k by (simp add: upd)
  have ids: "map promptId ((pendingInteractions s)[k := mergeResponse ?old r]) =
             map promptId (pendingInteractions s)"
    by (simp add: map_update mergeResponse_def list_update_same_conv k)
  show "let old = pendingInteractions s ! k;
            new = pendingInteractions (updateInteractionWithResponse pid r s) ! k
        in updateInteractionWithResponse pid r s =
               s\<lparr>pendingInteractions := (pendingInteractions s)[k := new]\<rparr>
           \<and> length (pendingInteractions (updateInteractionWithResponse pid r s)) =
               length (pendingInteractions s)
           \<and> map promptId (pendingInteractions (updateInteractionWithResponse pid r s)) =
               map promptId (pendingInteractions s)
           \<and> outputTokenCount new = overwrite (outputTokenCount old) (resp_outputTokenCount r)
           \<and> totalTokenCount new = overwrite (totalTokenCount old) (resp_totalTokenCount r)
           \<and> cachedTokenCount new = overwrite (cachedTokenCount old) (resp_cachedTokenCount r)
           \<and> thoughtsTokenCount new =
               overwrite (thoughtsTokenCount old) (resp_thoughtsTokenCount r)
           \<and> toolTokenCount new = overwrite (toolTokenCount old) (resp_toolTokenCount r)
           \<and> responseDurationMs new =
               overwrite (responseDurationMs old) (resp_responseDurationMs r)
           \<and> (\<exists>m. metadata new = Some m \<and>
                 (\<forall>key. m key = (case spread (resp_metadata r) key of
                                    Some v \<Rightarrow> Some v
                                  | None \<Rightarrow> spread (metadata old) key)))
           \<and> new\<lparr> outputTokenCount := outputTokenCount old,
                   totalTokenCount := totalTokenCount old,
                   cachedTokenCount := cachedTokenCount old,
                   thoughtsTokenCount := thoughtsTokenCount old,
                   toolTokenCount := toolTokenCount old,
                   responseDurationMs := responseDurationMs old,
                   metadata := metadata old \<rparr> = old"
    unfolding Let_def new
    apply (intro conjI)
               apply (rule upd)
              apply (simp add: upd)
             apply (simp add: upd ids)
            apply (simp_all add: mergeResponse_def spread2_def map_add_def)
    done
qed


section \<open>Runs of events, drains and \<^verbatim>\<open>flush\<close>\<close>

lemma run_append: "run w s (xs @ ys) = run w (run w s xs) ys"
  by (simp add: run_def)

lemma run_Cons: "run w s (e # es) = run w (step w s e) es"
  by (simp add: run_def)

lemma run_Nil: "run w s [] = s"
  by (simp add: run_def)

lemma updateLastPromptDate_flags [simp]:
  "isTrackingEnabled (updateLastPromptDate now ps) = isTrackingEnabled ps"
  "filteredData (updateLastPromptDate now ps) = filteredData ps"
  by (auto simp: isTrackingEnabled_def filteredData_def shouldTrackPrompts_def
        shouldTrackTokens_def shouldTrackMetadata_def updateLastPromptDate_def saveSettings_def)

lemma trackInteraction_fields:
  assumes "isTrackingEnabled (privacyService s)"
  shows "supabaseService (trackInteraction now data s) = supabaseService s"
    and "dispatched (trackInteraction now data s) = dispatched s"
    and "privacyService (trackInteraction now data s) =
           updateLastPromptDate now (privacyService s)"
    and "isProcessing (trackInteraction now data s) =
           (isProcessing s \<or> batchSize \<le> length (pendingInteractions s) + 1)"
    and "pendingInteractions (trackInteraction now data s) =
           (if \<not> isProcessing s \<and> batchSize \<le> length (pendingInteractions s) + 1
            then drop batchSize (pendingInteractions s @ [filteredData (privacyService s) data])
            else pendingInteractions s @ [filteredData (privacyService s) data])"
    and "batch (trackInteraction now data s) =
           (if \<not> isProcessing s \<and> batchSize \<le> length (pendingInteractions s) + 1
            then take batchSize (pendingInteractions s @ [filteredData (privacyService s) data])
            else batch s)"
  using assms
  by (auto simp: trackInteraction_def Let_def processPendingInteractions_start_def)

lemma run_tracks_idle:
  assumes "isTrackingEnabled (privacyService s)" "\<not> isProcessing s"
    and "length (pendingInteractions s) + length ds < batchSize"
  shows "pendingInteractions (run w s (map (Track now) ds)) =
           pendingInteractions s @ map (filteredData (privacyService s)) ds
       \<and> \<not> isProcessing (run w s (map (Track now) ds))
       \<and> batch (run w s (map (Track now) ds)) = batch s
       \<and> dispatched (run w s (map (Track now) ds)) = dispatched s
       \<and> supabaseService (run w s (map (Track now) ds)) = supabaseService s
       \<and> isTrackingEnabled (privacyService (run w s (map (Track now) ds)))
       \<and> filteredData (privacyService (run w s (map (Track now) ds))) =
           filteredData (privacyService s)"
  using assms
proof (induction ds arbitrary: s)
  case Nil
  then show ?case by (simp add: run_Nil)
next
  case (Cons d ds)
  let ?s1 = "trackInteraction now d s"
  note f = trackInteraction_fields[OF Cons.prems(1), of now d]
  have 1: "isTrackingEnabled (privacyService ?s1)" "\<not> isProcessing ?s1"
    "length (pendingInteractions ?s1) + length ds < batchSize"
    using Cons.prems by (auto simp: f)
  from Cons.IH[OF 1] Cons.prems show ?case
    by (simp add: run_Cons f)
qed

lemma run_tracks_busy:
  assumes "isTrackingEnabled (privacyService s)" "isProcessing s"
  shows "pendingInteractions (run w s (map (Track now) ds)) =
           pendingInteractions s @ map (filteredData (privacyService s)) ds
       \<and> isProcessing (run w s (map (Track now) ds))
       \<and> batch (run w s (map (Track now) ds)) = batch s
       \<and> dispatched (run w s (map (Track now) ds)) = dispatched s
       \<and> supabaseService (run w s (map (Track now) ds)) = supabaseService s
       \<and> isTrackingEnabled (privacyService (run w s (map (Track now) ds)))
       \<and> filteredData (privacyService (run w s (map (Track now) ds))) =
           filteredData (privacyService s)"
  using assms
proof (induction ds arbitrary: s)
  case Nil
  then show ?case by (simp add: run_Nil)
next
  case (Cons d ds)
  let ?s1 = "trackInteraction now d s"
  note f = trackInteraction_fields[OF Cons.prems(1), of now d]
  have 1: "isTrackingEnabled (privacyService ?s1)" "isProcessing ?s1"
    using Cons.prems by (auto simp: f)
  from Cons.IH[OF 1] Cons.prems show ?case
    by (simp add: run_Cons f)
qed

lemma run_tracks_threshold:
  assumes en: "isTrackingEnabled (privacyService s)" and idle: "\<not> isProcessing s"
    and empty: "pendingInteractions s = []" and len: "batchSize \<le> length ds"
  shows "isProcessing (run w s (map (Track now) ds))
       \<and> batch (run w s (map (Track now) ds)) =
           map (filteredData (privacyService s)) (take batchSize ds)
       \<and> pendingInteractions (run w s (map (Track now) ds)) =
           map (filteredData (privacyService s)) (drop batchSize ds)
       \<and> dispatched (run w s (map (Track now) ds)) = dispatched s
       \<and> supabaseService (run w s (map (Track now) ds)) = supabaseService s
       \<and> isTrackingEnabled (privacyService (run w s (map (Track now) ds)))
       \<and> filteredData (privacyService (run w s (map (Track now) ds))) =
           filteredData (privacyService s)"
proof -
  let ?f = "filteredData (privacyService s)"
  define n where "n = batchSize - 1"
  have bs: "batchSize = Suc n" by (simp add: n_def batchSize_def)
  have split: "ds = take n ds @ ds ! n # drop batchSize ds"
    using len by (metis bs id_take_nth_drop Suc_le_lessD)
  let ?s9 = "run w s (map (Track now) (take n ds))"
  have "length (pendingInteractions s) + length (take n ds) < batchSize"
    using len empty by (simp add: bs)
  from run_tracks_idle[OF en idle this, of w now]
  have s9: "pendingInteractions ?s9 = map ?f (take n ds)" "\<not> isProcessing ?s9"
    "batch ?s9 = batch s" "dispatched ?s9 = dispatched s"
    "supabaseService ?s9 = supabaseService s" "isTrackingEnabled (privacyService ?s9)"
    "filteredData (privacyService ?s9) = ?f"
    using empty by simp_all
  let ?s10 = "trackInteraction now (ds ! n) ?s9"
  note f = trackInteraction_fields[OF s9(6), of now "ds ! n"]
  have l9: "length (pendingInteractions ?s9) + 1 = batchSize"
    unfolding s9(1) using len by (simp add: bs)
  have "take batchSize ds = take n ds @ [ds ! n]"
    using take_Suc_conv_app_nth[of n ds] len bs by (metis Suc_le_lessD)
  then have tk: "map ?f (take n ds) @ [?f (ds ! n)] = map ?f (take batchSize ds)"
    by (simp only: map_append list.map)
  have s10: "isProcessing ?s10" "batch ?s10 = map ?f (take batchSize ds)"
    "pendingInteractions ?s10 = []" "dispatched ?s10 = dispatched s"
    "supabaseService ?s10 = supabaseService s" "isTrackingEnabled (privacyService ?s10)"
    "filteredData (privacyService ?s10) = ?f"
    using l9 s9(2) by (simp_all add: f s9 tk)
  have "run w s (map (Track now) ds) = run w ?s10 (map (Track now) (drop batchSize ds))"
    by (subst split) (simp add: run_append run_Cons)
  with run_tracks_busy[OF s10(6) s10(1), of w now "drop batchSize ds"] show ?thesis
    by (simp add: s10)
qed


lemma settle_fields:
  "pendingInteractions (processPendingInteractions_settle w s) = pendingInteractions s"
  "\<not> isProcessing (processPendingInteractions_settle w s)"
  "batch (processPendingInteractions_settle w s) = []"
  "dispatched (processPendingInteractions_settle w s) = dispatched s @ batch s"
  "privacyService (processPendingInteractions_settle w s) = privacyService s"
  by (simp_all add: processPendingInteractions_settle_def dispatchAll_pending dispatchAll_frame)

lemma flush_busy: "isProcessing s \<Longrightarrow> flush w s = s"
  by (subst flush.simps) simp

lemma drains_needed:
  "0 < n \<Longrightarrow> (n + batchSize - 1) div batchSize = Suc ((n - batchSize + batchSize - 1) div batchSize)"
  unfolding batchSize_def by (cases "n \<le> 10") auto

lemma flush_idle:
  "\<not> isProcessing s \<Longrightarrow>
   pendingInteractions (flush w s) = [] \<and> \<not> isProcessing (flush w s) \<and>
   flush w s =
     (processPendingInteractions w ^^
        ((length (pendingInteractions s) + batchSize - 1) div batchSize)) s"
proof (induction w s rule: flush.induct)
  case (1 w s)
  show ?case
  proof (cases "pendingInteractions s = []")
    case True
    then show ?thesis
      using "1.prems" by (subst (1 2 3) flush.simps) (simp add: batchSize_def)
  next
    case False
    let ?s1 = "processPendingInteractions w s"
    have idle1: "\<not> isProcessing ?s1"
      using "1.prems" by (rule processPendingInteractions_flag)
    have eq: "flush w s = flush w ?s1"
      using False "1.prems" by (subst flush.simps) simp
    have len1: "length (pendingInteractions ?s1) = length (pendingInteractions s) - batchSize"
      using "1.prems" by (simp add: processPendingInteractions_pending)
    have cnt: "(length (pendingInteractions s) + batchSize - 1) div batchSize =
               Suc ((length (pendingInteractions ?s1) + batchSize - 1) div batchSize)"
      using False drains_needed[of "length (pendingInteractions s)"] by (simp add: len1)
    let ?k = "(length (pendingInteractions ?s1) + batchSize - 1) div batchSize"
    from "1.IH"[OF _ idle1] False "1.prems"
    have a: "pendingInteractions (flush w ?s1) = []" and b: "\<not> isProcessing (flush w ?s1)"
      and c: "flush w ?s1 = (processPendingInteractions w ^^ ?k) ?s1"
      by blast+
    have "flush w s = (processPendingInteractions w ^^ Suc ?k) s"
      unfolding eq c by (simp add: funpow_swap1)
    with a b show ?thesis
      unfolding cnt by (simp only: eq simp_thms)
  qed
qed

lemma filteredData_testPrivacy: "filteredData testPrivacy d = d"
  by (simp add: filteredData_def shouldTrackPrompts_def shouldTrackTokens_def
        shouldTrackMetadata_def isTrackingEnabled_def testPrivacy_def testSettings_def)

lemma testPrivacy_enabled: "isTrackingEnabled testPrivacy"
  by (simp add: isTrackingEnabled_def testPrivacy_def testSettings_def)

lemma tracked_few:
  assumes "length pids < batchSize"
  shows "pendingInteractions (tracked (newTracker sb testPrivacy) pids) = map mockTrackingData pids"
    and "\<not> isProcessing (tracked (newTracker sb testPrivacy) pids)"
    and "supabaseService (tracked (newTracker sb testPrivacy) pids) = sb"
proof -
  let ?s0 = "newTracker sb testPrivacy"
  have en: "isTrackingEnabled (privacyService ?s0)"
    by (simp add: newTracker_def testPrivacy_enabled)
  have idle: "\<not> isProcessing ?s0"
    by (simp add: newTracker_def)
  have len: "length (pendingInteractions ?s0) + length (map mockTrackingData pids) < batchSize"
    using assms by (simp add: newTracker_def)
  note t = run_tracks_idle[OF en idle len, of alwaysOk "''2025-01-02T00:00:00.000Z''",
             folded tracked_def]
  have f: "map (filteredData (privacyService ?s0)) (map mockTrackingData pids) =
           map mockTrackingData pids"
    by (simp add: newTracker_def filteredData_testPrivacy)
  show "pendingInteractions (tracked ?s0 pids) = map mockTrackingData pids"
    using t f by (simp add: newTracker_def)
  show "\<not> isProcessing (tracked ?s0 pids)" using t by blast
  show "supabaseService (tracked ?s0 pids) = sb" using t by (simp add: newTracker_def)
qed

lemma tracked_many:
  assumes "batchSize \<le> length pids"
  shows "pendingInteractions (tracked (newTracker sb testPrivacy) pids) =
           map mockTrackingData (drop batchSize pids)"
    and "batch (tracked (newTracker sb testPrivacy) pids) =
           map mockTrackingData (take batchSize pids)"
    and "isProcessing (tracked (newTracker sb testPrivacy) pids)"
    and "supabaseService (tracked (newTracker sb testPrivacy) pids) = sb"
    and "dispatched (tracked (newTracker sb testPrivacy) pids) = []"
proof -
  let ?s0 = "newTracker sb testPrivacy"
  have en: "isTrackingEnabled (privacyService ?s0)"
    by (simp add: newTracker_def testPrivacy_enabled)
  have idle: "\<not> isProcessing ?s0" and empty: "pendingInteractions ?s0 = []"
    by (simp_all add: newTracker_def)
  have len: "batchSize \<le> length (map mockTrackingData pids)"
    using assms by simp
  note t = run_tracks_threshold[OF en idle empty len, of alwaysOk "''2025-01-02T00:00:00.000Z''",
             folded tracked_def]
  have f: "filteredData (privacyService ?s0) = (\<lambda>d. d)"
    by (rule ext) (simp add: newTracker_def filteredData_testPrivacy)
  show "pendingInteractions (tracked ?s0 pids) = map mockTrackingData (drop batchSize pids)"
    using t by (simp add: f drop_map)
  show "batch (tracked ?s0 pids) = map mockTrackingData (take batchSize pids)"
    using t by (simp add: f take_map)
  show "isProcessing (tracked ?s0 pids)" using t by blast
  show "supabaseService (tracked ?s0 pids) = sb" using t by (simp add: newTracker_def)
  show "dispatched (tracked ?s0 pids) = []" using t by (simp add: newTracker_def)
qed

lemma promptId_mock: "map promptId (map mockTrackingData pids) = pids"
  by (induction pids) (simp_all add: mockTrackingData_def)

text \<open>
  What \<^verbatim>\<open>flush\<close> does from each of the two states of the flag. Called while a drain is
  in flight it returns at once and changes nothing, whatever is pending. Called while
  no drain is in flight, and waited for with nothing in between, it runs one whole
  drain after the other, as many as the pending count needs at \<^verbatim>\<open>batchSize\<close> records
  each, and returns with the pending count 0 and no drain in flight.
\<close>

lemma flush_by_flag:
  "(isProcessing s \<longrightarrow> flush w s = s)
 \<and> (\<not> isProcessing s \<longrightarrow>
      pendingInteractions (flush w s) = [] \<and> \<not> isProcessing (flush w s) \<and>
      flush w s =
        (processPendingInteractions w ^^
           ((length (pendingInteractions s) + batchSize - 1) div batchSize)) s)"
  using flush_busy[of s w] flush_idle[of s w]
  by (cases "isProcessing s") auto

text \<open>With two records pending and no drain in flight, \<^verbatim>\<open>flush\<close> returns with none
  pending, as the test \<^verbatim>\<open>should process all pending interactions\<close> expects.\<close>

lemma flush_twoPending:
  "\<not> isProcessing twoPending \<and> pendingCount twoPending = 2
 \<and> pendingCount (flush alwaysOk twoPending) = 0"
proof -
  have len: "length [''p1'', ''p2''] < batchSize"
    by (simp add: batchSize_def)
  note t = tracked_few[OF len, of testSupabase, folded twoPending_def]
  have 1: "\<not> isProcessing twoPending" by (rule t(2))
  have 2: "pendingCount twoPending = 2" unfolding pendingCount_def t(1) by simp
  from flush_by_flag[of twoPending alwaysOk] 1
  have "pendingInteractions (flush alwaysOk twoPending) = []"
    by blast
  then have "pendingCount (flush alwaysOk twoPending) = 0"
    by (simp add: pendingCount_def)
  with 1 2 show ?thesis by blast
qed

text \<open>
  Claim C2 on the code, with a sink that always succeeds. After twelve submissions the
  drain of the first ten is in flight and two records are pending. A \<^verbatim>\<open>flush\<close> called
  then returns at once: the drain is still in flight and the two records are still
  pending, where the claim has it not resolve before the pending count is 0. When the
  drain in flight has settled, the two records are pending still: the \<^verbatim>\<open>flush\<close> that
  has returned sent none of them.
\<close>

theorem flush_returns_during_drain:
  "isProcessing twelveSubmitted \<and> pendingCount twelveSubmitted = 2
 \<and> flush alwaysOk twelveSubmitted = twelveSubmitted
 \<and> isProcessing (flush alwaysOk twelveSubmitted)
 \<and> map promptId (pendingInteractions (flush alwaysOk twelveSubmitted)) = [''p11'', ''p12'']
 \<and> pendingCount (flush alwaysOk twelveSubmitted) = 2
 \<and> pendingCount (flush alwaysOk twelveSubmitted) \<noteq> 0
 \<and> map promptId (pendingInteractions
       (step alwaysOk (flush alwaysOk twelveSubmitted) Settled)) = [''p11'', ''p12'']
 \<and> map promptId (dispatched
       (step alwaysOk (flush alwaysOk twelveSubmitted) Settled)) =
     [''p1'', ''p2'', ''p3'', ''p4'', ''p5'', ''p6'', ''p7'', ''p8'', ''p9'', ''p10'']"
proof -
  have len: "batchSize \<le> length twelve"
    by (simp add: batchSize_def twelve_def)
  note t = tracked_many[OF len, of testSupabase, folded twelveSubmitted_def]
  have busy: "isProcessing twelveSubmitted" by (rule t(3))
  have p: "pendingInteractions twelveSubmitted = map mockTrackingData [''p11'', ''p12'']"
    unfolding t(1) by (simp add: batchSize_def twelve_def)
  have b: "batch twelveSubmitted = map mockTrackingData
             [''p1'', ''p2'', ''p3'', ''p4'', ''p5'', ''p6'', ''p7'', ''p8'', ''p9'', ''p10'']"
    unfolding t(2) by (simp add: batchSize_def twelve_def)
  have s: "step alwaysOk twelveSubmitted Settled =
           processPendingInteractions_settle alwaysOk twelveSubmitted"
    using busy by simp
  show ?thesis
    unfolding flush_busy[OF busy] s settle_fields pendingCount_def p t(5) b
    using busy by (simp add: mockTrackingData_def)
qed

text \<open>
  Claim C5 as stated fails: with the sink not enabled, a record submitted through
  \<^verbatim>\<open>trackInteraction\<close> is pending under \<^verbatim>\<open>p1\<close>, and an update of \<^verbatim>\<open>p1\<close> with the
  output token count 42 leaves its output token count at 20.
\<close>

theorem update_is_skipped_while_sink_disabled:
  "map promptId (pendingInteractions onePendingSinkOff) = [''p1'']
 \<and> resp_outputTokenCount outputTokens42 = Some (Some (Integer 42))
 \<and> map outputTokenCount
      (pendingInteractions (updateInteractionWithResponse ''p1'' outputTokens42 onePendingSinkOff))
     = [Some (Integer 20)]"
proof -
  have len: "length [''p1''] < batchSize"
    by (simp add: batchSize_def)
  note t = tracked_few[OF len, of unconfiguredSupabase, folded onePendingSinkOff_def]
  have off: "\<not> isEnabled (supabaseService onePendingSinkOff)"
    unfolding t(3) by (simp add: unconfiguredSupabase_def isEnabled_def)
  have same: "updateInteractionWithResponse ''p1'' outputTokens42 onePendingSinkOff =
              onePendingSinkOff"
    using off by (simp add: updateInteractionWithResponse_def)
  show ?thesis
    unfolding same t(1)
    by (simp add: mockTrackingData_def outputTokens42_def)
qed

theorem updateInteractionWithResponse_merges_in_place_witness:
  "isEnabled (supabaseService twoPending)
 \<and> map promptId (pendingInteractions twoPending) = [''p1'', ''p2'']
 \<and> map promptId
      (pendingInteractions (updateInteractionWithResponse ''p2'' outputTokens42 twoPending))
     = [''p1'', ''p2'']
 \<and> map outputTokenCount
      (pendingInteractions (updateInteractionWithResponse ''p2'' outputTokens42 twoPending))
     = [Some (Integer 20), Some (Integer 42)]"
proof -
  let ?t = twoPending
  let ?u = "updateInteractionWithResponse ''p2'' outputTokens42 twoPending"
  have len: "length [''p1'', ''p2''] < batchSize"
    by (simp add: batchSize_def)
  note t = tracked_few[OF len, of testSupabase, folded twoPending_def]
  have on: "isEnabled (supabaseService ?t)"
    unfolding t(3) by (simp add: testSupabase_def isEnabled_def)
  have p: "pendingInteractions ?t = [mockTrackingData ''p1'', mockTrackingData ''p2'']"
    unfolding t(1) by simp
  have pre: "1 < length (pendingInteractions ?t) \<and> promptId (pendingInteractions ?t ! 1) = ''p2'' \<and>
             (\<forall>j<1. promptId (pendingInteractions ?t ! j) \<noteq> ''p2'')"
    unfolding p by (simp add: mockTrackingData_def)
  from updateInteractionWithResponse_merges_in_place[of ?t "''p2''" outputTokens42, THEN conjunct2, THEN conjunct2, THEN mp, OF on,
          THEN spec, of 1, THEN mp, OF pre]
  have upd: "?u = ?t\<lparr>pendingInteractions := (pendingInteractions ?t)[1 := pendingInteractions ?u ! 1]\<rparr>"
    and ids: "map promptId (pendingInteractions ?u) = map promptId (pendingInteractions ?t)"
    and out: "outputTokenCount (pendingInteractions ?u ! 1) =
              overwrite (outputTokenCount (pendingInteractions ?t ! 1))
                (resp_outputTokenCount outputTokens42)"
    unfolding Let_def by blast+
  have first: "pendingInteractions ?u ! 0 = pendingInteractions ?t ! 0"
    by (subst upd) (simp add: p)
  have "length (map promptId (pendingInteractions ?u)) = 2"
    unfolding ids p by simp
  then have l: "length (pendingInteractions ?u) = 2"
    by simp
  then have shape: "pendingInteractions ?u = [pendingInteractions ?u ! 0, pendingInteractions ?u ! 1]"
    by (cases "pendingInteractions ?u"; cases "tl (pendingInteractions ?u)") auto
  have 0: "map promptId (pendingInteractions ?t) = [''p1'', ''p2'']"
    unfolding p by (simp add: mockTrackingData_def)
  have 1: "map promptId (pendingInteractions ?u) = [''p1'', ''p2'']"
    unfolding ids by (rule 0)
  have v0: "outputTokenCount (pendingInteractions ?u ! 0) = Some (Integer 20)"
    unfolding first p by (simp add: mockTrackingData_def)
  have v1: "outputTokenCount (pendingInteractions ?u ! 1) = Some (Integer 42)"
    unfolding out p by (simp add: mockTrackingData_def outputTokens42_def)
  have 2: "map outputTokenCount (pendingInteractions ?u) = [Some (Integer 20), Some (Integer 42)]"
    by (subst shape) (simp only: list.map v0 v1)
  show ?thesis
    using on 0 1 2 by blast
qed

section \<open>Enqueue and the drain at the threshold\<close>

lemma logUserInteraction_ok:
  assumes "passesGuards i sb" "insertOutcome w (length (inserted sb)) (attemptRow w i cfg sb) = Returned None"
  shows "logUserInteraction w i cfg sb =
         (Inr True, sb\<lparr>inserted := inserted sb @ [attemptRow w i cfg sb], retryCount := 0\<rparr>)"
  using assms(2) by (simp add: logUserInteraction_attempt[OF assms(1)])

lemma dispatchAll_all_ok:
  assumes "\<And>n row. insertOutcome w n row = Returned None"
    and "\<forall>d\<in>set ds. passesGuards (toInteraction d) (supabaseService s)"
  shows "map prompt_id (inserted (supabaseService (dispatchAll w ds s))) =
         map prompt_id (inserted (supabaseService s)) @ map promptId ds"
  using assms(2)
proof (induction ds arbitrary: s)
  case Nil
  then show ?case by simp
next
  case (Cons d ds)
  let ?sb = "supabaseService s"
  let ?i = "toInteraction d"
  have g: "passesGuards ?i ?sb" using Cons.prems by simp
  have log: "logUserInteraction w ?i (data_config d) ?sb =
     (Inr True, ?sb\<lparr>inserted := inserted ?sb @ [attemptRow w ?i (data_config d) ?sb],
                    retryCount := 0\<rparr>)"
    by (rule logUserInteraction_ok[OF g assms(1)])
  let ?s1 = "dispatch w d s"
  have sb1: "supabaseService ?s1 =
     ?sb\<lparr>inserted := inserted ?sb @ [attemptRow w ?i (data_config d) ?sb], retryCount := 0\<rparr>"
    by (simp add: dispatch_def log)
  have "\<forall>d'\<in>set ds. passesGuards (toInteraction d') (supabaseService ?s1)"
    using Cons.prems by (simp add: sb1)
  from Cons.IH[OF this] show ?case
    by (simp add: sb1 toInteraction_def)
qed

text \<open>
  Claim C8. While tracking is enabled, \<^verbatim>\<open>trackInteraction\<close> appends the filtered record
  to the tail of the pending sequence. When that leaves fewer than \<^verbatim>\<open>batchSize\<close> = 10
  records pending, or a drain is in flight, nothing else happens; when it makes the
  pending count reach \<^verbatim>\<open>batchSize\<close> and no drain is in flight, a drain starts at once
  and takes the first \<^verbatim>\<open>batchSize\<close> records as its batch. So for any ten or more
  records submitted to a new tracker with no other event in between, no drain runs
  before the tenth submission, the drain starts at the tenth, and it is the only one:
  after the last submission the first ten are its batch and the rest are pending, and
  once it settles the rest are still pending, the ten have been dispatched, and, when
  every \<^verbatim>\<open>insert\<close> succeeds, each of the ten has been inserted once, in order.
\<close>

theorem trackInteraction_enqueues_and_triggers_drain:
  "(isTrackingEnabled (privacyService s) \<longrightarrow>
      (length (pendingInteractions s) + 1 < batchSize \<or> isProcessing s \<longrightarrow>
         pendingInteractions (trackInteraction now data s) =
           pendingInteractions s @ [filteredData (privacyService s) data]
       \<and> isProcessing (trackInteraction now data s) = isProcessing s
       \<and> batch (trackInteraction now data s) = batch s
       \<and> dispatched (trackInteraction now data s) = dispatched s
       \<and> supabaseService (trackInteraction now data s) = supabaseService s)
    \<and> (batchSize \<le> length (pendingInteractions s) + 1 \<and> \<not> isProcessing s \<longrightarrow>
         isProcessing (trackInteraction now data s)
       \<and> batch (trackInteraction now data s) =
           take batchSize (pendingInteractions s @ [filteredData (privacyService s) data])
       \<and> pendingInteractions (trackInteraction now data s) =
           drop batchSize (pendingInteractions s @ [filteredData (privacyService s) data])
       \<and> dispatched (trackInteraction now data s) = dispatched s
       \<and> supabaseService (trackInteraction now data s) = supabaseService s))
 \<and> batchSize = 10
 \<and> (isTrackingEnabled ps \<and> batchSize \<le> length ds \<longrightarrow>
      (\<forall>k<batchSize.
          \<not> isProcessing (run w (newTracker sb ps) (map (Track now) (take k ds))))
    \<and> isProcessing (run w (newTracker sb ps) (map (Track now) (take batchSize ds)))
    \<and> (let t = run w (newTracker sb ps) (map (Track now) ds); u = step w t Settled
        in isProcessing t
         \<and> batch t = map (filteredData ps) (take batchSize ds)
         \<and> pendingInteractions t = map (filteredData ps) (drop batchSize ds)
         \<and> \<not> isProcessing u \<and> batch u = []
         \<and> pendingInteractions u = map (filteredData ps) (drop batchSize ds)
         \<and> dispatched u = map (filteredData ps) (take batchSize ds)
         \<and> ((\<forall>n row. insertOutcome w n row = Returned None) \<and>
             (\<forall>d\<in>set (take batchSize ds).
                 passesGuards (toInteraction (filteredData ps d)) sb) \<longrightarrow>
             map prompt_id (inserted (supabaseService u)) =
               map prompt_id (inserted sb) @ map promptId (take batchSize ds))))"
  (is "?A \<and> ?B \<and> (?pre \<longrightarrow> ?before \<and> ?at \<and> ?after)")
proof -
  have A: ?A
  proof (rule impI)
    assume en: "isTrackingEnabled (privacyService s)"
    note f = trackInteraction_fields[OF en, of now data]
    show "(length (pendingInteractions s) + 1 < batchSize \<or> isProcessing s \<longrightarrow>
         pendingInteractions (trackInteraction now data s) =
           pendingInteractions s @ [filteredData (privacyService s) data]
       \<and> isProcessing (trackInteraction now data s) = isProcessing s
       \<and> batch (trackInteraction now data s) = batch s
       \<and> dispatched (trackInteraction now data s) = dispatched s
       \<and> supabaseService (trackInteraction now data s) = supabaseService s)
    \<and> (batchSize \<le> length (pendingInteractions s) + 1 \<and> \<not> isProcessing s \<longrightarrow>
         isProcessing (trackInteraction now data s)
       \<and> batch (trackInteraction now data s) =
           take batchSize (pendingInteractions s @ [filteredData (privacyService s) data])
       \<and> pendingInteractions (trackInteraction now data s) =
           drop batchSize (pendingInteractions s @ [filteredData (privacyService s) data])
       \<and> dispatched (trackInteraction now data s) = dispatched s
       \<and> supabaseService (trackInteraction now data s) = supabaseService s)"
      by (auto simp: f simp del: take_append drop_append)
  qed
  have B: ?B by (simp add: batchSize_def)
  have C: "?before \<and> ?at \<and> ?after" if a: ?pre
  proof -
    let ?s0 = "newTracker sb ps"
    have en: "isTrackingEnabled (privacyService ?s0)" and idle: "\<not> isProcessing ?s0"
      and empty: "pendingInteractions ?s0 = []" and ps: "privacyService ?s0 = ps"
      and d0: "dispatched ?s0 = []" and sb0: "supabaseService ?s0 = sb"
      using a by (simp_all add: newTracker_def)
    have before: ?before
    proof (intro allI impI)
      fix k assume "k < batchSize"
      then have "length (pendingInteractions ?s0) + length (take k ds) < batchSize"
        by (simp add: empty)
      from run_tracks_idle[OF en idle this]
      show "\<not> isProcessing (run w ?s0 (map (Track now) (take k ds)))"
        by blast
    qed
    have "batchSize \<le> length (take batchSize ds)" using a by simp
    from run_tracks_threshold[OF en idle empty this]
    have at: ?at
      by blast
    let ?t = "run w ?s0 (map (Track now) ds)"
    let ?u = "step w ?t Settled"
    from a have len: "batchSize \<le> length ds" by blast
    note t = run_tracks_threshold[OF en idle empty len, of w now, unfolded ps d0 sb0]
    have busy: "isProcessing ?t" using t by blast
    have u: "?u = processPendingInteractions_settle w ?t"
      using busy by simp
    have ok: "map prompt_id (inserted (supabaseService ?u)) =
                 map prompt_id (inserted sb) @ map promptId (take batchSize ds)"
      if "(\<forall>n row. insertOutcome w n row = Returned None) \<and>
          (\<forall>d\<in>set (take batchSize ds). passesGuards (toInteraction (filteredData ps d)) sb)"
    proof -
      have 1: "\<And>n row. insertOutcome w n row = Returned None" using that by blast
      have 2: "\<forall>d\<in>set (batch ?t). passesGuards (toInteraction d) (supabaseService ?t)"
        using that t by simp
      have "map promptId (map (filteredData ps) (take batchSize ds)) =
            map promptId (take batchSize ds)"
        by (simp add: filteredData_def)
      with dispatchAll_all_ok[OF 1 2] t show ?thesis
        by (simp add: u processPendingInteractions_settle_def)
    qed
    have after: ?after
      unfolding Let_def using t ok by (simp add: u settle_fields)
    from before at after show ?thesis by blast
  qed
  from A B C show ?thesis by blast
qed


theorem trackInteraction_enqueues_and_triggers_drain_witness:
  "isTrackingEnabled testPrivacy \<and> batchSize \<le> length twelve
 \<and> isProcessing twelveSubmitted
 \<and> \<not> isProcessing (step alwaysOk twelveSubmitted Settled)
 \<and> map promptId (pendingInteractions (step alwaysOk twelveSubmitted Settled)) = [''p11'', ''p12'']
 \<and> map prompt_id (inserted (supabaseService (step alwaysOk twelveSubmitted Settled))) =
     [''p1'', ''p2'', ''p3'', ''p4'', ''p5'', ''p6'', ''p7'', ''p8'', ''p9'', ''p10'']"
proof -
  let ?ds = "map mockTrackingData twelve"
  have eq: "twelveSubmitted =
            run alwaysOk (newTracker testSupabase testPrivacy)
              (map (Track ''2025-01-02T00:00:00.000Z'') ?ds)"
    by (simp only: twelveSubmitted_def tracked_def)
  have len: "batchSize \<le> length twelve"
    by (simp add: batchSize_def twelve_def)
  have pre: "isTrackingEnabled testPrivacy \<and> batchSize \<le> length ?ds"
    using len by (simp add: testPrivacy_enabled)
  note th = trackInteraction_enqueues_and_triggers_drain[where ps = testPrivacy and ds = ?ds and w = alwaysOk and sb = testSupabase
                 and now = "''2025-01-02T00:00:00.000Z''",
               THEN conjunct2, THEN conjunct2, THEN mp, OF pre, THEN conjunct2, THEN conjunct2,
               unfolded Let_def, folded eq]
  have f: "map (filteredData testPrivacy) xs = xs" for xs
    by (induction xs) (simp_all add: filteredData_testPrivacy)
  have ok: "\<forall>n row. insertOutcome alwaysOk n row = Returned None"
    by (simp add: alwaysOk_def)
  have g: "\<forall>d\<in>set (take batchSize ?ds).
             passesGuards (toInteraction (filteredData testPrivacy d)) testSupabase"
    by (auto simp: filteredData_testPrivacy passesGuards_def isEnabled_def testSupabase_def
          toInteraction_def mockTrackingData_def twelve_def dest!: in_set_takeD)
  have 1: "isProcessing twelveSubmitted" using th by blast
  have 2: "\<not> isProcessing (step alwaysOk twelveSubmitted Settled)" using th by blast
  have "pendingInteractions (step alwaysOk twelveSubmitted Settled) =
        map (filteredData testPrivacy) (drop batchSize ?ds)"
    using th by blast
  then have "pendingInteractions (step alwaysOk twelveSubmitted Settled) =
        map mockTrackingData (drop batchSize twelve)"
    by (simp only: f drop_map)
  then have 3: "map promptId (pendingInteractions (step alwaysOk twelveSubmitted Settled)) =
                [''p11'', ''p12'']"
    by (simp add: batchSize_def twelve_def mockTrackingData_def)
  have "map prompt_id (inserted (supabaseService (step alwaysOk twelveSubmitted Settled))) =
        map prompt_id (inserted testSupabase) @ map promptId (take batchSize ?ds)"
    using th ok g by blast
  then have 4: "map prompt_id (inserted (supabaseService (step alwaysOk twelveSubmitted Settled))) =
     [''p1'', ''p2'', ''p3'', ''p4'', ''p5'', ''p6'', ''p7'', ''p8'', ''p9'', ''p10'']"
    by (simp add: batchSize_def twelve_def testSupabase_def mockTrackingData_def)
  from pre len 1 2 3 4 show ?thesis by blast
qed

section \<open>One drain at a time\<close>

lemma promptId_filteredData [simp]: "promptId (filteredData ps d) = promptId d"
  by (simp add: filteredData_def)

lemma promptId_mergeResponse [simp]: "promptId (mergeResponse d r) = promptId d"
  by (simp add: mergeResponse_def)

lemma updateInteractionWithResponse_ids:
  "map promptId (pendingInteractions (updateInteractionWithResponse pid r s)) =
     map promptId (pendingInteractions s)
 \<and> dispatched (updateInteractionWithResponse pid r s) = dispatched s
 \<and> batch (updateInteractionWithResponse pid r s) = batch s
 \<and> isProcessing (updateInteractionWithResponse pid r s) = isProcessing s
 \<and> privacyService (updateInteractionWithResponse pid r s) = privacyService s"
proof (cases "findIndex (\<lambda>interaction. promptId interaction = pid) (pendingInteractions s)")
  case None
  then show ?thesis by (simp add: updateInteractionWithResponse_def)
next
  case (Some k)
  from findIndex_Some[OF Some] have "k < length (pendingInteractions s)" by blast
  then have "map promptId ((pendingInteractions s)
               [k := mergeResponse (pendingInteractions s ! k) r]) =
             map promptId (pendingInteractions s)"
    by (simp add: map_update list_update_same_conv)
  then show ?thesis
    using Some by (simp add: updateInteractionWithResponse_def)
qed

lemma processPendingInteractions_held:
  assumes "\<not> isProcessing s" "batch s = []"
  shows "\<not> isProcessing (processPendingInteractions w s)
       \<and> batch (processPendingInteractions w s) = []
       \<and> heldIds (processPendingInteractions w s) = heldIds s
       \<and> privacyService (processPendingInteractions w s) = privacyService s"
proof (cases "pendingInteractions s = []")
  case True
  then show ?thesis using assms by (simp add: processPendingInteractions_def)
next
  case False
  let ?s1 = "processPendingInteractions_start s"
  have s1: "batch ?s1 = take batchSize (pendingInteractions s)"
    "pendingInteractions ?s1 = drop batchSize (pendingInteractions s)"
    "dispatched ?s1 = dispatched s" "privacyService ?s1 = privacyService s"
    using False assms by (simp_all add: processPendingInteractions_start_def)
  have "processPendingInteractions w s = processPendingInteractions_settle w ?s1"
    using False assms by (simp add: processPendingInteractions_def)
  then show ?thesis
    using assms(2) by (simp add: settle_fields s1 heldIds_def flip: map_append)
qed

lemma funpow_processPendingInteractions_held:
  assumes "\<not> isProcessing s" "batch s = []"
  shows "\<not> isProcessing ((processPendingInteractions w ^^ k) s)
       \<and> batch ((processPendingInteractions w ^^ k) s) = []
       \<and> heldIds ((processPendingInteractions w ^^ k) s) = heldIds s
       \<and> privacyService ((processPendingInteractions w ^^ k) s) = privacyService s"
proof (induction k)
  case 0
  then show ?case using assms by simp
next
  case (Suc k)
  then show ?case
    using processPendingInteractions_held[of "(processPendingInteractions w ^^ k) s" w]
    by simp
qed

lemma step_held:
  assumes "\<not> isProcessing s \<longrightarrow> batch s = []"
  shows "(\<not> isProcessing (step w s e) \<longrightarrow> batch (step w s e) = [])
       \<and> heldIds (step w s e) =
           heldIds s @ (if isTrackingEnabled (privacyService s) then submittedId e else [])
       \<and> isTrackingEnabled (privacyService (step w s e)) = isTrackingEnabled (privacyService s)"
proof (cases e)
  case (Track now data)
  show ?thesis
  proof (cases "isTrackingEnabled (privacyService s)")
    case False
    then show ?thesis using assms Track by (simp add: trackInteraction_def)
  next
    case True
    note f = trackInteraction_fields[OF True, of now data]
    have "batch (trackInteraction now data s) @ pendingInteractions (trackInteraction now data s) =
          batch s @ pendingInteractions s @ [filteredData (privacyService s) data]"
      using assms by (simp add: trackInteraction_enqueues[OF True])
    then have "heldIds (trackInteraction now data s) = heldIds s @ [promptId data]"
      by (simp add: heldIds_def f(2))
    moreover have "\<not> isProcessing (trackInteraction now data s) \<longrightarrow>
                   batch (trackInteraction now data s) = []"
      using assms by (auto simp: f)
    ultimately show ?thesis
      using True Track by (simp add: f(3))
  qed
next
  case (Update pid r)
  then show ?thesis
    using assms updateInteractionWithResponse_ids[of pid r s] by (simp add: heldIds_def)
next
  case Tick
  have "batch (processPendingInteractions_start s) @
          pendingInteractions (processPendingInteractions_start s) =
        batch s @ pendingInteractions s"
    using assms by (auto simp: processPendingInteractions_start_concat)
  moreover have "dispatched (processPendingInteractions_start s) = dispatched s"
    "privacyService (processPendingInteractions_start s) = privacyService s"
    "\<not> isProcessing (processPendingInteractions_start s) \<longrightarrow>
       batch (processPendingInteractions_start s) = []"
    using assms by (auto simp: processPendingInteractions_start_def)
  ultimately show ?thesis
    using Tick by (simp add: heldIds_def)
next
  case Settled
  then show ?thesis
    using assms by (simp add: settle_fields heldIds_def)
next
  case Flush
  show ?thesis
  proof (cases "isProcessing s")
    case True
    then show ?thesis using Flush by (simp add: flush_busy)
  next
    case False
    with assms have b: "batch s = []" by blast
    from flush_idle[OF False, of w] obtain k where
      "flush w s = (processPendingInteractions w ^^ k) s" by blast
    with funpow_processPendingInteractions_held[OF False b, where w = w and k = k] show ?thesis
      using Flush by simp
  qed
qed

lemma run_held:
  assumes "\<not> isProcessing s \<longrightarrow> batch s = []"
  shows "(\<not> isProcessing (run w s evs) \<longrightarrow> batch (run w s evs) = [])
       \<and> heldIds (run w s evs) =
           heldIds s @ (if isTrackingEnabled (privacyService s) then submittedIds evs else [])"
  using assms
proof (induction evs arbitrary: s)
  case Nil
  then show ?case by (simp add: run_Nil submittedIds_def)
next
  case (Cons e evs)
  note st = step_held[OF Cons.prems, of w e]
  from st have 1: "\<not> isProcessing (step w s e) \<longrightarrow> batch (step w s e) = []" by blast
  from Cons.IH[OF 1] st show ?case
    by (simp add: run_Cons submittedIds_def)
qed

text \<open>
  Claim C7. While the flag \<^verbatim>\<open>isProcessing\<close> is set, a drain request changes nothing and
  dispatches nothing: not the tick of the timer, not a call of
  \<^verbatim>\<open>processPendingInteractions\<close>, not \<^verbatim>\<open>flush\<close>, and the request that
  \<^verbatim>\<open>trackInteraction\<close> makes at the threshold leaves the flag, the batch in flight, the
  dispatched records and the sink as they are. In every state that a sequence of
  events reaches from a new tracker, a tracker that is not draining holds no batch,
  and the identifiers of the dispatched records, the batch in flight and the pending
  records, in this order, are the submitted identifiers in the order of submission:
  every submitted record is in one place only, so none is dispatched twice.
\<close>

theorem drain_requests_are_noops_while_processing:
  "(isProcessing s \<longrightarrow>
      processPendingInteractions_start s = s \<and> processPendingInteractions w s = s \<and>
      flush w s = s \<and> step w s Tick = s \<and> step w s Flush = s \<and>
      isProcessing (trackInteraction now data s) \<and>
      batch (trackInteraction now data s) = batch s \<and>
      dispatched (trackInteraction now data s) = dispatched s \<and>
      supabaseService (trackInteraction now data s) = supabaseService s)
 \<and> (\<not> isProcessing (run w (newTracker sb ps) evs) \<longrightarrow> batch (run w (newTracker sb ps) evs) = [])
 \<and> heldIds (run w (newTracker sb ps) evs) =
      (if isTrackingEnabled ps then submittedIds evs else [])"
proof -
  have A: "processPendingInteractions_start s = s \<and> processPendingInteractions w s = s \<and>
      flush w s = s \<and> step w s Tick = s \<and> step w s Flush = s \<and>
      isProcessing (trackInteraction now data s) \<and>
      batch (trackInteraction now data s) = batch s \<and>
      dispatched (trackInteraction now data s) = dispatched s \<and>
      supabaseService (trackInteraction now data s) = supabaseService s" if busy: "isProcessing s"
  proof -
    have 1: "processPendingInteractions_start s = s"
      using busy by (simp add: processPendingInteractions_start_def)
    have 2: "processPendingInteractions w s = s"
      using busy by (simp add: processPendingInteractions_def)
    have 3: "flush w s = s" using busy by (rule flush_busy)
    have 4: "isProcessing (trackInteraction now data s) \<and>
      batch (trackInteraction now data s) = batch s \<and>
      dispatched (trackInteraction now data s) = dispatched s \<and>
      supabaseService (trackInteraction now data s) = supabaseService s"
    proof (cases "isTrackingEnabled (privacyService s)")
      case True
      then show ?thesis using busy by (simp add: trackInteraction_fields)
    next
      case False
      then show ?thesis using busy by (simp add: trackInteraction_def)
    qed
    from 1 2 3 4 show ?thesis by simp
  qed
  have "\<not> isProcessing (newTracker sb ps) \<longrightarrow> batch (newTracker sb ps) = []"
    by (simp add: newTracker_def)
  from run_held[OF this, of w evs] have B:
    "(\<not> isProcessing (run w (newTracker sb ps) evs) \<longrightarrow> batch (run w (newTracker sb ps) evs) = [])
     \<and> heldIds (run w (newTracker sb ps) evs) =
        (if isTrackingEnabled ps then submittedIds evs else [])"
    by (simp add: newTracker_def heldIds_def)
  from A B show ?thesis by blast
qed


theorem drain_requests_are_noops_while_processing_witness:
  "isProcessing twelveSubmitted
 \<and> pendingCount (step alwaysOk twelveSubmitted Tick) = 2
 \<and> pendingCount (step alwaysOk twelveSubmitted Flush) = 2
 \<and> map promptId (batch (step alwaysOk twelveSubmitted Tick)) =
     [''p1'', ''p2'', ''p3'', ''p4'', ''p5'', ''p6'', ''p7'', ''p8'', ''p9'', ''p10'']
 \<and> heldIds twelveSubmitted = twelve"
proof -
  have len: "batchSize \<le> length twelve"
    by (simp add: batchSize_def twelve_def)
  note t = tracked_many[OF len, of testSupabase, folded twelveSubmitted_def]
  have busy: "isProcessing twelveSubmitted" by (rule t(3))
  have p: "pendingCount twelveSubmitted = 2"
    unfolding pendingCount_def t(1) by (simp add: batchSize_def twelve_def)
  have b: "map promptId (batch twelveSubmitted) =
           [''p1'', ''p2'', ''p3'', ''p4'', ''p5'', ''p6'', ''p7'', ''p8'', ''p9'', ''p10'']"
    unfolding t(2) promptId_mock by (simp add: batchSize_def twelve_def)
  note th = drain_requests_are_noops_while_processing[where s = twelveSubmitted and w = alwaysOk and sb = testSupabase
                and ps = testPrivacy
                and evs = "map (Track ''2025-01-02T00:00:00.000Z'') (map mockTrackingData twelve)",
               folded tracked_def, folded twelveSubmitted_def]
  from th busy have tick: "step alwaysOk twelveSubmitted Tick = twelveSubmitted"
    and fl: "step alwaysOk twelveSubmitted Flush = twelveSubmitted"
    by blast+
  have ids: "submittedIds (map (Track ''2025-01-02T00:00:00.000Z'') (map mockTrackingData twelve))
             = twelve"
    by (simp add: submittedIds_def twelve_def mockTrackingData_def)
  from th have "heldIds twelveSubmitted =
     (if isTrackingEnabled testPrivacy
      then submittedIds (map (Track ''2025-01-02T00:00:00.000Z'') (map mockTrackingData twelve))
      else [])"
    by blast
  then have h: "heldIds twelveSubmitted = twelve"
    by (simp only: ids testPrivacy_enabled if_True)
  show ?thesis
    unfolding tick fl using busy p b h by blast
qed

text \<open>
  Claim C1 on the code. Eleven records are submitted; the drain takes \<^verbatim>\<open>p1\<close> to
  \<^verbatim>\<open>p10\<close>, and \<^verbatim>\<open>p11\<close> is pending. Every \<^verbatim>\<open>insert\<close> of \<^verbatim>\<open>p1\<close> throws a network
  error, which is retryable, and the call of the sink for \<^verbatim>\<open>p1\<close> resolves to false.
  When the drain has settled, \<^verbatim>\<open>p11\<close> alone is pending: \<^verbatim>\<open>p1\<close> has not been put back.
\<close>

theorem transient_failure_is_not_requeued:
  "pendingCount elevenSubmitted = 1
 \<and> map promptId (batch elevenSubmitted) =
     [''p1'', ''p2'', ''p3'', ''p4'', ''p5'', ''p6'', ''p7'', ''p8'', ''p9'', ''p10'']
 \<and> retryable (ErrorObject ''network error'')
 \<and> fst (logUserInteraction p1Down (toInteraction (mockTrackingData ''p1'')) None testSupabase)
     = Inr False
 \<and> \<not> isProcessing (step p1Down elevenSubmitted Settled)
 \<and> map promptId (pendingInteractions (step p1Down elevenSubmitted Settled)) = [''p11'']
 \<and> map promptId (dispatched (step p1Down elevenSubmitted Settled)) =
     [''p1'', ''p2'', ''p3'', ''p4'', ''p5'', ''p6'', ''p7'', ''p8'', ''p9'', ''p10'']"
proof -
  have len: "batchSize \<le> length (take 11 twelve)"
    by (simp add: batchSize_def twelve_def)
  note t = tracked_many[OF len, of testSupabase, folded elevenSubmitted_def]
  have busy: "isProcessing elevenSubmitted" by (rule t(3))
  have p: "pendingInteractions elevenSubmitted = [mockTrackingData ''p11'']"
    unfolding t(1) by (simp add: batchSize_def twelve_def)
  have b: "map promptId (batch elevenSubmitted) =
           [''p1'', ''p2'', ''p3'', ''p4'', ''p5'', ''p6'', ''p7'', ''p8'', ''p9'', ''p10'']"
    unfolding t(2) promptId_mock by (simp add: batchSize_def twelve_def)
  have r: "retryable (ErrorObject ''network error'')"
    by simp
  have g: "passesGuards (toInteraction (mockTrackingData ''p1'')) testSupabase"
    by (simp add: passesGuards_def isEnabled_def testSupabase_def
          toInteraction_def mockTrackingData_def)
  have down: "\<exists>e. insertOutcome p1Down k row = Threw e \<and> retryable e"
    if "prompt_id row = prompt_id (toInteraction (mockTrackingData ''p1''))" for k row
    using that r by (simp add: p1Down_def toInteraction_def mockTrackingData_def)
  from sink_gives_up[OF g down, of None]
  have f: "fst (logUserInteraction p1Down (toInteraction (mockTrackingData ''p1'')) None
                  testSupabase) = Inr False"
    by blast
  have u: "step p1Down elevenSubmitted Settled =
           processPendingInteractions_settle p1Down elevenSubmitted"
    using busy by simp
  have 1: "pendingCount elevenSubmitted = 1"
    unfolding pendingCount_def p by simp
  have 2: "\<not> isProcessing (step p1Down elevenSubmitted Settled)"
    unfolding u by (rule settle_fields(2))
  have 3: "map promptId (pendingInteractions (step p1Down elevenSubmitted Settled)) = [''p11'']"
    unfolding u settle_fields(1) p by (simp add: mockTrackingData_def)
  have 4: "map promptId (dispatched (step p1Down elevenSubmitted Settled)) =
     [''p1'', ''p2'', ''p3'', ''p4'', ''p5'', ''p6'', ''p7'', ''p8'', ''p9'', ''p10'']"
    unfolding u settle_fields(4) t(5) using b by simp
  from 1 b r f 2 3 4 show ?thesis by blast
qed

end
